theory Spec2Isabelle
  imports Main "HOL-Library.Word" "HOL-Library.Monad_Syntax"
begin

unbundle bit_operations_syntax

section \<open>Machine model\<close>

text \<open>
  The allocator of \<^verbatim>\<open>src/malloc/mm.c\<close> runs on a 64-bit machine: a pointer takes
  the eight bytes of a link slot, so that the smallest block is
  header (4) + two links (8 + 8) + footer (4) = 24 bytes.

  \<^item> \<^verbatim>\<open>size_t\<close> is \<open>64 word\<close>, \<^verbatim>\<open>unsigned int\<close> is \<open>32 word\<close>, \<^verbatim>\<open>int\<close> is read
    with \<open>sint\<close> from a \<open>32 word\<close>; arithmetic on them wraps as in C.
  \<^item> An address is an \<open>int\<close>; \<^verbatim>\<open>NULL\<close> is 0 and \<^verbatim>\<open>(void *)-1\<close> is \<open>2^64 - 1\<close>.
    Pointer arithmetic is not wrapped (its overflow is undefined in C).
  \<^item> Memory is a function from addresses to bytes, little-endian. A load or
    store outside the arena \<open>[mem_heap_lo, mem_brk)\<close> is a fault: the
    operation yields \<open>None\<close>, as does every operation that runs into it.
    A loop that never ends yields \<open>None\<close> as well.
\<close>

type_synonym addr = int
type_synonym size_t = "64 word"

record heap_state =
  mem :: "int \<Rightarrow> 8 word"
  mem_heap_lo :: int
  mem_brk :: int
  mem_max_addr :: int
  heap_listp :: int
  seg_free :: int

primrec le_word :: "8 word list \<Rightarrow> 'a::len word" where
  "le_word [] = 0"
| "le_word (b # bs) = ucast b OR push_bit 8 (le_word bs)"

primrec le_bytes :: "nat \<Rightarrow> 'a::len word \<Rightarrow> 8 word list" where
  "le_bytes 0 w = []"
| "le_bytes (Suc n) w = ucast w # le_bytes n (drop_bit 8 w)"

primrec load_bytes :: "(int \<Rightarrow> 8 word) \<Rightarrow> int \<Rightarrow> nat \<Rightarrow> 8 word list" where
  "load_bytes m a 0 = []"
| "load_bytes m a (Suc n) = m a # load_bytes m (a + 1) n"

primrec store_bytes :: "(int \<Rightarrow> 8 word) \<Rightarrow> int \<Rightarrow> 8 word list \<Rightarrow> (int \<Rightarrow> 8 word)" where
  "store_bytes m a [] = m"
| "store_bytes m a (b # bs) = store_bytes (m(a := b)) (a + 1) bs"

definition in_heap :: "heap_state \<Rightarrow> int \<Rightarrow> nat \<Rightarrow> bool" where
  "in_heap s a n = (mem_heap_lo s \<le> a \<and> a + int n \<le> mem_brk s)"

definition rd32 :: "heap_state \<Rightarrow> int \<Rightarrow> 32 word" where
  "rd32 s a = le_word (load_bytes (mem s) a 4)"

definition wr32 :: "int \<Rightarrow> 32 word \<Rightarrow> heap_state \<Rightarrow> heap_state" where
  "wr32 a v s = s\<lparr>mem := store_bytes (mem s) a (le_bytes 4 v)\<rparr>"

definition rd_ptr :: "heap_state \<Rightarrow> int \<Rightarrow> int" where
  "rd_ptr s a = uint (le_word (load_bytes (mem s) a 8) :: 64 word)"

definition wr_ptr :: "int \<Rightarrow> int \<Rightarrow> heap_state \<Rightarrow> heap_state" where
  "wr_ptr a p s = s\<lparr>mem := store_bytes (mem s) a (le_bytes 8 (word_of_int p :: 64 word))\<rparr>"

definition load32 :: "heap_state \<Rightarrow> int \<Rightarrow> 32 word option" where
  "load32 s a = (if in_heap s a 4 then Some (rd32 s a) else None)"

definition store32 :: "int \<Rightarrow> 32 word \<Rightarrow> heap_state \<Rightarrow> heap_state option" where
  "store32 a v s = (if in_heap s a 4 then Some (wr32 a v s) else None)"

definition load_ptr :: "heap_state \<Rightarrow> int \<Rightarrow> int option" where
  "load_ptr s a = (if in_heap s a 8 then Some (rd_ptr s a) else None)"

definition store_ptr :: "int \<Rightarrow> int \<Rightarrow> heap_state \<Rightarrow> heap_state option" where
  "store_ptr a p s = (if in_heap s a 8 then Some (wr_ptr a p s) else None)"

section \<open>Constants and macros\<close>

definition WSIZE :: int where "WSIZE = 4"
definition DSIZE :: int where "DSIZE = 8"
definition CHUNKSIZE :: size_t where "CHUNKSIZE = 170"
definition BUCKETS :: nat where "BUCKETS = 12"

text \<open>\<^verbatim>\<open>PACK(size, alloc)\<close> is \<^verbatim>\<open>(size) | (alloc)\<close>, here on a \<^verbatim>\<open>size_t\<close>.\<close>

definition PACK :: "size_t \<Rightarrow> size_t \<Rightarrow> size_t" where
  "PACK sz alloc = sz OR alloc"

definition GET :: "heap_state \<Rightarrow> int \<Rightarrow> 32 word option" where
  "GET s p = load32 s p"

text \<open>\<^verbatim>\<open>PUT(p, val)\<close> assigns to an \<^verbatim>\<open>unsigned int\<close>: the value is cut to 32 bits.\<close>

definition PUT :: "int \<Rightarrow> size_t \<Rightarrow> heap_state \<Rightarrow> heap_state option" where
  "PUT p val s = store32 p (ucast val) s"

definition GET_SIZE :: "heap_state \<Rightarrow> int \<Rightarrow> 32 word option" where
  "GET_SIZE s p = map_option (\<lambda>w. w AND NOT 7) (GET s p)"

definition GET_ALLOC :: "heap_state \<Rightarrow> int \<Rightarrow> 32 word option" where
  "GET_ALLOC s p = map_option (\<lambda>w. w AND 1) (GET s p)"

definition HDRP :: "int \<Rightarrow> int" where
  "HDRP bp = bp - WSIZE"

definition FTRP :: "heap_state \<Rightarrow> int \<Rightarrow> int option" where
  "FTRP s bp = map_option (\<lambda>sz. bp + uint sz - DSIZE) (GET_SIZE s (HDRP bp))"

definition NEXT_BLKP :: "heap_state \<Rightarrow> int \<Rightarrow> int option" where
  "NEXT_BLKP s bp = map_option (\<lambda>sz. bp + uint sz) (GET_SIZE s (bp - WSIZE))"

definition PREV_BLKP :: "heap_state \<Rightarrow> int \<Rightarrow> int option" where
  "PREV_BLKP s bp = map_option (\<lambda>sz. bp - uint sz) (GET_SIZE s (bp - DSIZE))"

definition NEXT_FREE :: "heap_state \<Rightarrow> int \<Rightarrow> int option" where
  "NEXT_FREE s bp = load_ptr s (bp + DSIZE)"

definition PREV_FREE :: "heap_state \<Rightarrow> int \<Rightarrow> int option" where
  "PREV_FREE s bp = load_ptr s bp"

definition set_NEXT_FREE :: "int \<Rightarrow> int \<Rightarrow> heap_state \<Rightarrow> heap_state option" where
  "set_NEXT_FREE bp p s = store_ptr (bp + DSIZE) p s"

definition set_PREV_FREE :: "int \<Rightarrow> int \<Rightarrow> heap_state \<Rightarrow> heap_state option" where
  "set_PREV_FREE bp p s = store_ptr bp p s"

text \<open>\<^verbatim>\<open>seg_free[i]\<close>: the bucket table is an array of pointers inside the arena.\<close>

definition get_seg_free :: "heap_state \<Rightarrow> nat \<Rightarrow> int option" where
  "get_seg_free s i = load_ptr s (seg_free s + 8 * int i)"

definition set_seg_free :: "nat \<Rightarrow> int \<Rightarrow> heap_state \<Rightarrow> heap_state option" where
  "set_seg_free i p s = store_ptr (seg_free s + 8 * int i) p s"

section \<open>Size classes\<close>

text \<open>
  \<^verbatim>\<open>find_bucket\<close> narrows its \<^verbatim>\<open>size_t\<close> argument to an \<^verbatim>\<open>int\<close> and runs over all
  twelve buckets, keeping the last index \<open>i\<close> with \<open>bsize >= (1 << (i + 4))\<close>.
\<close>

definition int_of_size :: "size_t \<Rightarrow> int" where
  "int_of_size sz = sint (ucast sz :: 32 word)"

definition find_bucket :: "size_t \<Rightarrow> nat" where
  "find_bucket sz =
     fold (\<lambda>i bucket. if int_of_size sz \<ge> 2 ^ (i + 4) then i else bucket) [0..<BUCKETS] 0"

section \<open>The arena\<close>

text \<open>
  Modelled from the spec: \<^verbatim>\<open>mem_sbrk\<close>, \<^verbatim>\<open>mem_heap_lo\<close> and \<^verbatim>\<open>mem_heap_hi\<close> of
  \<^verbatim>\<open>memlib.c\<close>, which is not among the sources. The arena is one contiguous,
  append-only byte region bounded by a low and a high address; growing it returns
  the old end of the region, and fails with \<^verbatim>\<open>(void *)-1\<close>, changing nothing, when
  the host's memory is exhausted. The bytes of a new region keep whatever the
  memory held.
\<close>

definition mem_sbrk :: "size_t \<Rightarrow> heap_state \<Rightarrow> int \<times> heap_state" where
  "mem_sbrk incr s =
     (if mem_brk s + uint incr > mem_max_addr s then (2 ^ 64 - 1, s)
      else (mem_brk s, s\<lparr>mem_brk := mem_brk s + uint incr\<rparr>))"

definition mem_heap_hi :: "heap_state \<Rightarrow> int" where
  "mem_heap_hi s = mem_brk s - 1"

text \<open>
  \<^verbatim>\<open>memcpy\<close> of the C library: both regions must lie in the arena, and they must
  not overlap (the copy of overlapping regions is undefined).
\<close>

definition copy_bytes :: "int \<Rightarrow> int \<Rightarrow> nat \<Rightarrow> heap_state \<Rightarrow> heap_state" where
  "copy_bytes dst src n s = s\<lparr>mem := store_bytes (mem s) dst (load_bytes (mem s) src n)\<rparr>"

definition memcpy :: "int \<Rightarrow> int \<Rightarrow> size_t \<Rightarrow> heap_state \<Rightarrow> heap_state option" where
  "memcpy dst src n s =
     (if n = 0 then Some s
      else if in_heap s src (unat n) \<and> in_heap s dst (unat n)
              \<and> (dst + uint n \<le> src \<or> src + uint n \<le> dst)
      then Some (copy_bytes dst src (unat n) s)
      else None)"

section \<open>Segregated free lists\<close>

definition insert_free :: "int \<Rightarrow> heap_state \<Rightarrow> heap_state option" where
  "insert_free bp s = do {
     sz \<leftarrow> GET_SIZE s (HDRP bp);
     let bsize = find_bucket (ucast sz);
     h \<leftarrow> get_seg_free s bsize;
     s' \<leftarrow> (if h = 0 then do {
              s1 \<leftarrow> set_PREV_FREE bp 0 s;
              set_NEXT_FREE bp 0 s1 }
            else do {
              s1 \<leftarrow> set_PREV_FREE h bp s;
              h' \<leftarrow> get_seg_free s1 bsize;
              s2 \<leftarrow> set_NEXT_FREE bp h' s1;
              set_PREV_FREE bp 0 s2 });
     set_seg_free bsize bp s' }"

definition remove_free :: "int \<Rightarrow> heap_state \<Rightarrow> heap_state option" where
  "remove_free bp s = do {
     sz \<leftarrow> GET_SIZE s (HDRP bp);
     let bucket = find_bucket (ucast sz);
     prev \<leftarrow> PREV_FREE s bp;
     next \<leftarrow> NEXT_FREE s bp;
     if prev = 0 \<and> next = 0 then set_seg_free bucket 0 s
     else if prev = 0 then do {
       s1 \<leftarrow> set_PREV_FREE next 0 s;
       next' \<leftarrow> NEXT_FREE s1 bp;
       set_seg_free bucket next' s1 }
     else if next = 0 then set_NEXT_FREE prev 0 s
     else do {
       s1 \<leftarrow> set_NEXT_FREE prev next s;
       set_PREV_FREE next prev s1 } }"

section \<open>Coalescing, growing, placing\<close>

definition coalesce :: "int \<Rightarrow> heap_state \<Rightarrow> (int \<times> heap_state) option" where
  "coalesce bp s = do {
     pb \<leftarrow> PREV_BLKP s bp;
     pf \<leftarrow> FTRP s pb;
     prev_alloc \<leftarrow> GET_ALLOC s pf;
     nb \<leftarrow> NEXT_BLKP s bp;
     next_alloc \<leftarrow> GET_ALLOC s (HDRP nb);
     sz \<leftarrow> GET_SIZE s (HDRP bp);
     if prev_alloc \<noteq> 0 \<and> next_alloc \<noteq> 0 then do {
       s' \<leftarrow> insert_free bp s;
       Some (bp, s') }
     else if prev_alloc \<noteq> 0 \<and> next_alloc = 0 then do {
       nsz \<leftarrow> GET_SIZE s (HDRP nb);
       let sz' = (ucast sz :: size_t) + ucast nsz;
       s1 \<leftarrow> remove_free nb s;
       s2 \<leftarrow> PUT (HDRP bp) (PACK sz' 0) s1;
       fp \<leftarrow> FTRP s2 bp;
       s3 \<leftarrow> PUT fp (PACK sz' 0) s2;
       s' \<leftarrow> insert_free bp s3;
       Some (bp, s') }
     else if prev_alloc = 0 \<and> next_alloc \<noteq> 0 then do {
       psz \<leftarrow> GET_SIZE s (HDRP pb);
       let sz' = (ucast sz :: size_t) + ucast psz;
       s1 \<leftarrow> remove_free pb s;
       fp \<leftarrow> FTRP s1 bp;
       s2 \<leftarrow> PUT fp (PACK sz' 0) s1;
       pb2 \<leftarrow> PREV_BLKP s2 bp;
       s3 \<leftarrow> PUT (HDRP pb2) (PACK sz' 0) s2;
       pb3 \<leftarrow> PREV_BLKP s3 bp;
       s' \<leftarrow> insert_free pb3 s3;
       Some (pb3, s') }
     else do {
       psz \<leftarrow> GET_SIZE s (HDRP pb);
       nf \<leftarrow> FTRP s nb;
       nsz \<leftarrow> GET_SIZE s nf;
       let sz' = (ucast sz :: size_t) + ucast (psz + nsz);
       s1 \<leftarrow> remove_free pb s;
       nb1 \<leftarrow> NEXT_BLKP s1 bp;
       s2 \<leftarrow> remove_free nb1 s1;
       pb2 \<leftarrow> PREV_BLKP s2 bp;
       s3 \<leftarrow> PUT (HDRP pb2) (PACK sz' 0) s2;
       nb3 \<leftarrow> NEXT_BLKP s3 bp;
       nf3 \<leftarrow> FTRP s3 nb3;
       s4 \<leftarrow> PUT nf3 (PACK sz' 0) s3;
       pb4 \<leftarrow> PREV_BLKP s4 bp;
       s' \<leftarrow> insert_free pb4 s4;
       Some (pb4, s') } }"

definition extend_heap :: "size_t \<Rightarrow> heap_state \<Rightarrow> (int \<times> heap_state) option" where
  "extend_heap words s =
     (let sz = (if words mod 2 \<noteq> 0 then (words + 1) * 4 else words * 4);
          (bp, s0) = mem_sbrk sz s
      in if bp = 2 ^ 64 - 1 then Some (0, s0)
         else do {
           s1 \<leftarrow> PUT (HDRP bp) (PACK sz 0) s0;
           fp \<leftarrow> FTRP s1 bp;
           s2 \<leftarrow> PUT fp (PACK sz 0) s1;
           nb \<leftarrow> NEXT_BLKP s2 bp;
           s3 \<leftarrow> PUT (HDRP nb) (PACK 0 1) s2;
           coalesce bp s3 })"

definition place :: "int \<Rightarrow> size_t \<Rightarrow> heap_state \<Rightarrow> heap_state option" where
  "place bp asize s = do {
     csz \<leftarrow> GET_SIZE s (HDRP bp);
     let csize = (ucast csz :: size_t);
     s1 \<leftarrow> remove_free bp s;
     if csize - asize \<ge> 24 then do {
       s2 \<leftarrow> PUT (HDRP bp) (PACK asize 1) s1;
       fp \<leftarrow> FTRP s2 bp;
       s3 \<leftarrow> PUT fp (PACK asize 1) s2;
       nb \<leftarrow> NEXT_BLKP s3 bp;
       s4 \<leftarrow> PUT (HDRP nb) (PACK (csize - asize) 0) s3;
       nf \<leftarrow> FTRP s4 nb;
       s5 \<leftarrow> PUT nf (PACK (csize - asize) 0) s4;
       insert_free nb s5 }
     else do {
       s2 \<leftarrow> PUT (HDRP bp) (PACK csize 1) s1;
       fp \<leftarrow> FTRP s2 bp;
       PUT fp (PACK csize 1) s2 } }"

section \<open>Finding a fit\<close>

text \<open>
  The inner loop of \<^verbatim>\<open>find_fit\<close> follows the links of one bucket until it meets a
  block that is large enough or the end of the list; on a list that loops back
  on itself without a fit it does not return. Inside the loop \<open>bp\<close> is not
  \<^verbatim>\<open>NULL\<close>, so the result 0 stands for "no fit in this bucket".
\<close>

partial_function (option) find_fit_list :: "heap_state \<Rightarrow> size_t \<Rightarrow> int \<Rightarrow> int option" where
  "find_fit_list s asize bp =
     (if bp = 0 then Some 0
      else do {
        sz \<leftarrow> GET_SIZE s (HDRP bp);
        if asize \<le> ucast sz then Some bp
        else do {
          next \<leftarrow> NEXT_FREE s bp;
          find_fit_list s asize next } })"

declare find_fit_list.simps [code]

fun find_fit_buckets :: "heap_state \<Rightarrow> size_t \<Rightarrow> nat list \<Rightarrow> int option" where
  "find_fit_buckets s asize [] = Some 0"
| "find_fit_buckets s asize (i # is) = do {
     h \<leftarrow> get_seg_free s i;
     bp \<leftarrow> find_fit_list s asize h;
     if bp \<noteq> 0 then Some bp else find_fit_buckets s asize is }"

text \<open>\<^verbatim>\<open>find_bucket((int)asize)\<close>: the argument is narrowed to \<^verbatim>\<open>int\<close> and widened again.\<close>

definition find_fit :: "size_t \<Rightarrow> heap_state \<Rightarrow> int option" where
  "find_fit asize s =
     (let bsize = find_bucket (scast (ucast asize :: 32 word))
      in find_fit_buckets s asize [bsize..<BUCKETS])"

section \<open>The interface\<close>

definition mm_init :: "heap_state \<Rightarrow> (int \<times> heap_state) option" where
  "mm_init s =
     (let (p, s0) = mem_sbrk 112 s;
          s1 = s0\<lparr>heap_listp := p\<rparr>
      in if p = 2 ^ 64 - 1 then Some (- 1, s1)
         else do {
           let s2 = s1\<lparr>seg_free := heap_listp s1\<rparr>;
           s3 \<leftarrow> fold (\<lambda>i so. so \<bind> set_seg_free i 0) [0..<BUCKETS] (Some s2);
           let s4 = s3\<lparr>heap_listp := heap_listp s3 + int BUCKETS * DSIZE\<rparr>;
           s5 \<leftarrow> PUT (heap_listp s4) 0 s4;
           s6 \<leftarrow> PUT (heap_listp s5 + 1 * WSIZE) (PACK 8 1) s5;
           s7 \<leftarrow> PUT (heap_listp s6 + 2 * WSIZE) (PACK 8 1) s6;
           s8 \<leftarrow> PUT (heap_listp s7 + 3 * WSIZE) (PACK 0 1) s7;
           let s9 = s8\<lparr>heap_listp := heap_listp s8 + 2 * WSIZE\<rparr>;
           (bp, s10) \<leftarrow> extend_heap (CHUNKSIZE div 4) s9;
           if bp = 0 then Some (- 1, s10) else Some (0, s10) })"

text \<open>The adjusted block size of \<^verbatim>\<open>malloc\<close>: overhead and alignment, in \<^verbatim>\<open>size_t\<close>.\<close>

definition adjust_size :: "size_t \<Rightarrow> size_t" where
  "adjust_size sz = (if sz \<le> 8 then 3 * 8 else 8 * ((sz + 8 + (8 - 1)) div 8))"

definition malloc :: "size_t \<Rightarrow> heap_state \<Rightarrow> (int \<times> heap_state) option" where
  "malloc sz s = do {
     s0 \<leftarrow> (if heap_listp s = 0 then map_option snd (mm_init s) else Some s);
     if sz = 0 then Some (0, s0)
     else do {
       let asize = adjust_size sz;
       bp \<leftarrow> find_fit asize s0;
       if bp \<noteq> 0 then do {
         s1 \<leftarrow> place bp asize s0;
         Some (bp, s1) }
       else do {
         let extendsize = max asize CHUNKSIZE;
         (bp, s1) \<leftarrow> extend_heap (extendsize div 4) s0;
         if bp = 0 then Some (0, s1)
         else do {
           s2 \<leftarrow> place bp asize s1;
           Some (bp, s2) } } } }"

definition free :: "int \<Rightarrow> heap_state \<Rightarrow> heap_state option" where
  "free bp s =
     (if bp = 0 then Some s
      else do {
        sz \<leftarrow> GET_SIZE s (HDRP bp);
        s0 \<leftarrow> (if heap_listp s = 0 then map_option snd (mm_init s) else Some s);
        s1 \<leftarrow> PUT (HDRP bp) (PACK (ucast sz) 0) s0;
        fp \<leftarrow> FTRP s1 bp;
        s2 \<leftarrow> PUT fp (PACK (ucast sz) 0) s1;
        let bindex = find_bucket (ucast sz);
        h \<leftarrow> get_seg_free s2 bindex;
        if h = 0 then insert_free bp s2
        else map_option snd (coalesce bp s2) })"

definition realloc :: "int \<Rightarrow> size_t \<Rightarrow> heap_state \<Rightarrow> (int \<times> heap_state) option" where
  "realloc ptr sz s =
     (if sz = 0 then do {
        s1 \<leftarrow> free ptr s;
        Some (0, s1) }
      else if ptr = 0 then malloc sz s
      else do {
        (newptr, s1) \<leftarrow> malloc sz s;
        if newptr = 0 then Some (0, s1)
        else do {
          osz \<leftarrow> GET_SIZE s1 (HDRP ptr);
          let oldsize = (if sz < ucast osz then sz else ucast osz);
          s2 \<leftarrow> memcpy newptr ptr oldsize s1;
          s3 \<leftarrow> free ptr s2;
          Some (newptr, s3) } })"

section \<open>The heap checker\<close>

text \<open>
  The checker only reads the state and prints; its model returns the lines
  printed, in order. The state does not change while it runs, so a macro
  that the source evaluates twice in one statement is loaded once. The
  source's \<^verbatim>\<open>a || b\<close> is \<open>if a then True else b\<close>.
\<close>

definition check_block :: "heap_state \<Rightarrow> int \<Rightarrow> string list option" where
  "check_block s bp = do {
     h \<leftarrow> GET_SIZE s (HDRP bp);
     fp \<leftarrow> FTRP s bp;
     f \<leftarrow> GET_SIZE s fp;
     let header = (ucast h :: size_t);
     let footer = (ucast f :: size_t);
     mismatch \<leftarrow> (if header \<noteq> footer then Some True
                  else do {
                    ha \<leftarrow> GET_ALLOC s (HDRP bp);
                    fa \<leftarrow> GET_ALLOC s fp;
                    Some (ha \<noteq> fa) });
     ha \<leftarrow> GET_ALLOC s (HDRP bp);
     consecutive \<leftarrow> (if ha \<noteq> 0 then Some False
                     else do {
                       nb \<leftarrow> NEXT_BLKP s bp;
                       na \<leftarrow> GET_ALLOC s (HDRP nb);
                       Some (na = 0) });
     Some ((if mismatch then [''Header & footer do not match''] else [])
         @ (if (if header mod 8 \<noteq> 0 then True else header < 8) then [''Block size error''] else [])
         @ (if consecutive then [''Consecutive free blocks''] else [])
         @ (if bp > mem_heap_hi s \<or> bp < mem_heap_lo s then [''Bp out of heap bounds''] else [])) }"

text \<open>
  The walk over the blocks, from \<open>bp\<close> to the first header of size 0. It
  returns the lines printed and the block pointer it stopped at.
\<close>

function check_blocks :: "heap_state \<Rightarrow> int \<Rightarrow> (string list \<times> int) option" where
  "check_blocks s bp =
     (case GET_SIZE s (HDRP bp) of
        None \<Rightarrow> None
      | Some sz \<Rightarrow>
          if sz > 0 then
            (case check_block s bp of
               None \<Rightarrow> None
             | Some out \<Rightarrow>
                 (case check_blocks s (bp + uint sz) of
                    None \<Rightarrow> None
                  | Some (rest, e) \<Rightarrow> Some (out @ rest, e)))
          else Some ([], bp))"
  by pat_completeness auto

text \<open>
  The walk ends on every state: a header that can be read lies below the end of
  the arena, and a block of positive size moves the walk forward.
\<close>

termination check_blocks
proof (relation "measure (\<lambda>(s, bp). nat (mem_brk s + 1 - bp))")
  show "wf (measure (\<lambda>(s, bp). nat (mem_brk s + 1 - bp)))" by simp
next
  fix s :: heap_state and bp :: int and sz :: "32 word" and out :: "string list"
  assume g: "GET_SIZE s (HDRP bp) = Some sz" and pos: "0 < sz"
  from g have "bp \<le> mem_brk s"
    by (auto simp: GET_SIZE_def GET_def load32_def in_heap_def HDRP_def WSIZE_def split: if_splits)
  moreover from pos have "0 < uint sz"
    by (simp add: word_less_def)
  ultimately show "((s, bp + uint sz), (s, bp)) \<in> measure (\<lambda>(s, bp). nat (mem_brk s + 1 - bp))"
    by simp
qed

text \<open>
  \<^verbatim>\<open>cycle_check\<close>: the tortoise \<open>t\<close> steps once per round, the hare \<open>h\<close> twice,
  before the two are compared.
\<close>

partial_function (option) cycle_check_loop :: "heap_state \<Rightarrow> int \<Rightarrow> int \<Rightarrow> string list option" where
  "cycle_check_loop s t h =
     (if t = 0 then Some []
      else do {
        h1 \<leftarrow> NEXT_FREE s h;
        h2 \<leftarrow> NEXT_FREE s h1;
        t' \<leftarrow> NEXT_FREE s t;
        rest \<leftarrow> cycle_check_loop s t' h2;
        Some ((if t = h2 then [''Cycle detected in linked list''] else []) @ rest) })"

declare cycle_check_loop.simps [code]

definition cycle_check :: "heap_state \<Rightarrow> int \<Rightarrow> string list option" where
  "cycle_check s bp = cycle_check_loop s bp bp"

text \<open>The walk over one bucket list of \<^verbatim>\<open>mm_checkheap\<close>, from \<open>flp\<close>, for bucket \<open>i\<close>.\<close>

partial_function (option) check_list :: "heap_state \<Rightarrow> nat \<Rightarrow> int \<Rightarrow> string list option" where
  "check_list s i flp =
     (if flp = 0 then Some []
      else do {
        next \<leftarrow> NEXT_FREE s flp;
        c1 \<leftarrow> (if next \<noteq> 0 then map_option (\<lambda>p. p \<noteq> flp) (PREV_FREE s next) else Some False);
        prev \<leftarrow> PREV_FREE s flp;
        c2 \<leftarrow> (if prev \<noteq> 0 then map_option (\<lambda>n. n \<noteq> flp) (NEXT_FREE s prev) else Some False);
        sz \<leftarrow> GET_SIZE s flp;
        al \<leftarrow> GET_ALLOC s flp;
        rest \<leftarrow> check_list s i next;
        Some ((if c1 then [''Links in linked list do not match''] else [])
            @ (if c2 then [''Links in linked list do not match''] else [])
            @ (if find_bucket (ucast sz) \<noteq> i then [''Blocks are not in correct seg_list''] else [])
            @ (if al \<noteq> 0 then [''Allocated block in free list''] else [])
            @ rest) })"

declare check_list.simps [code]

fun check_buckets :: "heap_state \<Rightarrow> nat list \<Rightarrow> string list option" where
  "check_buckets s [] = Some []"
| "check_buckets s (i # is) = do {
     flp \<leftarrow> get_seg_free s i;
     o1 \<leftarrow> cycle_check s flp;
     o2 \<leftarrow> check_list s i flp;
     rest \<leftarrow> check_buckets s is;
     Some (o1 @ o2 @ rest) }"

definition mm_checkheap :: "int \<Rightarrow> heap_state \<Rightarrow> string list option" where
  "mm_checkheap lineno s = do {
     psz \<leftarrow> GET_SIZE s (HDRP (heap_listp s));
     pal \<leftarrow> GET_ALLOC s (HDRP (heap_listp s));
     (out, bp) \<leftarrow> check_blocks s (heap_listp s);
     esz \<leftarrow> GET_SIZE s (HDRP bp);
     eal \<leftarrow> GET_ALLOC s (HDRP bp);
     lists \<leftarrow> check_buckets s [0..<BUCKETS];
     Some ((if (if psz \<noteq> 8 then True else pal = 0) then [''Heap error: prologue header''] else [])
         @ out
         @ (if (if esz \<noteq> 0 then True else eal = 0) then [''Heap error: epilogue header''] else [])
         @ lists) }"

section \<open>A concrete arena\<close>

text \<open>
  An arena that starts at address 4096 and may grow to 8192, with every byte 0
  and nothing initialised yet: the state before the first call.
\<close>

definition fresh_arena :: heap_state where
  "fresh_arena =
     \<lparr>mem = (\<lambda>_. 0), mem_heap_lo = 4096, mem_brk = 4096, mem_max_addr = 8192,
      heap_listp = 0, seg_free = 0\<rparr>"

text \<open>The arena after \<^verbatim>\<open>mm_init\<close>.\<close>

definition init_heap :: heap_state where
  "init_heap = snd (the (mm_init fresh_arena))"

text \<open>
  The arena of \<open>fresh_arena\<close> when the host has no memory left after the first
  chunk, once \<^verbatim>\<open>mm_init\<close> and \<^verbatim>\<open>malloc(10)\<close> have run: the block at 4208 is
  allocated, and the arena cannot grow.
\<close>

definition full_heap :: heap_state where
  "full_heap =
     snd (the (do { (r, s) \<leftarrow> mm_init (fresh_arena\<lparr>mem_max_addr := 4376\<rparr>); malloc 10 s }))"


text \<open>
  The arena of \<open>fresh_arena\<close> after four allocations (blocks of 40, 24, 56 and 24
  bytes at 4208, 4248, 4272 and 4328) and the release of the third and the first:
  bucket 1 then holds the 40-byte block in front of the 56-byte block.
\<close>

definition heap_w :: heap_state where
  "heap_w = snd (the (do {
     (r, s) \<leftarrow> mm_init fresh_arena; (a, s) \<leftarrow> malloc 30 s; (b, s) \<leftarrow> malloc 10 s;
     (c, s) \<leftarrow> malloc 48 s; (d, s) \<leftarrow> malloc 10 s; s \<leftarrow> free c s; s \<leftarrow> free a s;
     Some ((), s) }))"


section \<open>Bucket lists as lists\<close>

text \<open>
  \<open>free_chain s h xs\<close>: following the \<^verbatim>\<open>NEXT_FREE\<close> links from \<open>h\<close> visits the
  blocks \<open>xs\<close>, in this order, and then reaches \<^verbatim>\<open>NULL\<close>; the header and the link of
  each block can be read. \<open>lists_of s L is\<close>: for every bucket \<open>i\<close> of \<open>is\<close>, the
  list of bucket \<open>i\<close> is \<open>L i\<close>.
\<close>

fun free_chain :: "heap_state \<Rightarrow> int \<Rightarrow> int list \<Rightarrow> bool" where
  "free_chain s h [] = (h = 0)"
| "free_chain s h (x # xs) =
     (h = x \<and> x \<noteq> 0 \<and> GET_SIZE s (HDRP x) \<noteq> None
      \<and> (case NEXT_FREE s x of None \<Rightarrow> False | Some n \<Rightarrow> free_chain s n xs))"

definition block_size :: "heap_state \<Rightarrow> int \<Rightarrow> size_t" where
  "block_size s bp = (case GET_SIZE s (HDRP bp) of None \<Rightarrow> 0 | Some sz \<Rightarrow> ucast sz)"

definition lists_of :: "heap_state \<Rightarrow> (nat \<Rightarrow> int list) \<Rightarrow> nat list \<Rightarrow> bool" where
  "lists_of s L is =
     list_all (\<lambda>i. case get_seg_free s i of None \<Rightarrow> False | Some h \<Rightarrow> free_chain s h (L i)) is"

text \<open>
  The first block of a list whose header size is at least \<open>asize\<close>, or \<^verbatim>\<open>NULL\<close>
  when there is none.
\<close>

definition first_fit :: "heap_state \<Rightarrow> size_t \<Rightarrow> int list \<Rightarrow> int" where
  "first_fit s asize xs = (case List.find (\<lambda>bp. asize \<le> block_size s bp) xs of None \<Rightarrow> 0 | Some bp \<Rightarrow> bp)"

section \<open>Frames\<close>

text \<open>Two states with the same arena bounds and the same globals.\<close>

definition same_arena :: "heap_state \<Rightarrow> heap_state \<Rightarrow> bool" where
  "same_arena s s' =
     (mem_heap_lo s' = mem_heap_lo s \<and> mem_brk s' = mem_brk s
      \<and> mem_max_addr s' = mem_max_addr s \<and> heap_listp s' = heap_listp s
      \<and> seg_free s' = seg_free s)"

text \<open>The two link cells of the block \<open>x\<close> lie outside the bucket table.\<close>

definition off_table :: "heap_state \<Rightarrow> int \<Rightarrow> bool" where
  "off_table s x = (x + 16 \<le> seg_free s \<or> seg_free s + 96 \<le> x)"

text \<open>
  \<open>apart s bp C x\<close>: the pointer \<open>x\<close> is \<^verbatim>\<open>NULL\<close>, or the two link cells at \<open>x\<close> lie in
  the arena, outside the block of \<open>C\<close> bytes at \<open>bp\<close> (header included) and outside
  the bucket table. \<open>heads_apart s bp C\<close>: the head of every bucket is \<open>bp\<close> itself
  or such a pointer.
\<close>

definition apart :: "heap_state \<Rightarrow> int \<Rightarrow> int \<Rightarrow> int \<Rightarrow> bool" where
  "apart s bp C x =
     (x = 0 \<or> (in_heap s x 16 \<and> (x + 16 \<le> bp - 4 \<or> bp + C - 4 \<le> x)
                \<and> (x + 16 \<le> seg_free s \<or> seg_free s + 96 \<le> x)))"

definition heads_apart :: "heap_state \<Rightarrow> int \<Rightarrow> int \<Rightarrow> bool" where
  "heads_apart s bp C =
     list_all (\<lambda>i. case get_seg_free s i of None \<Rightarrow> False | Some h \<Rightarrow> h = bp \<or> apart s bp C h)
       [0..<BUCKETS]"

section \<open>Bytes, words and the arena\<close>

lemma length_le_bytes [simp]: "length (le_bytes n w) = n"
  by (induction n arbitrary: w) simp_all

lemma length_load_bytes [simp]: "length (load_bytes m a n) = n"
  by (induction n arbitrary: a) simp_all

lemma store_bytes_outside:
  "x < a \<or> a + int (length bs) \<le> x \<Longrightarrow> store_bytes m a bs x = m x"
  by (induction bs arbitrary: m a) auto

lemma load_bytes_cong:
  "(\<And>x. a \<le> x \<Longrightarrow> x < a + int n \<Longrightarrow> m x = m' x) \<Longrightarrow> load_bytes m a n = load_bytes m' a n"
  by (induction n arbitrary: a) auto

lemma load_store_disjoint:
  "b + int n \<le> a \<or> a + int (length bs) \<le> b \<Longrightarrow>
   load_bytes (store_bytes m a bs) b n = load_bytes m b n"
  by (rule load_bytes_cong) (auto simp: store_bytes_outside)

lemma load_store_same: "load_bytes (store_bytes m a bs) a (length bs) = bs"
proof (induction bs arbitrary: m a)
  case Nil
  show ?case by simp
next
  case (Cons b bs)
  have "store_bytes (m(a := b)) (a + 1) bs a = (m(a := b)) a"
    by (rule store_bytes_outside) simp
  with Cons show ?case by simp
qed

lemma le_word_le_bytes: "le_word (le_bytes n w) = take_bit (8 * n) (w :: 'a::len word)"
proof (induction n arbitrary: w)
  case 0
  show ?case by simp
next
  case (Suc n)
  show ?case
    apply (simp add: Suc)
    apply (rule bit_word_eqI)
    apply (auto simp: bit_simps)
    done
qed

lemma le_word_le_bytes_32 [simp]: "le_word (le_bytes 4 (w :: 32 word)) = w"
  by (simp add: le_word_le_bytes take_bit_word_eq_self)

lemma le_word_le_bytes_64 [simp]: "le_word (le_bytes 8 (w :: 64 word)) = w"
  by (simp add: le_word_le_bytes take_bit_word_eq_self)

lemma wr32_fields [simp]:
  "mem_heap_lo (wr32 a v s) = mem_heap_lo s" "mem_brk (wr32 a v s) = mem_brk s"
  "mem_max_addr (wr32 a v s) = mem_max_addr s" "heap_listp (wr32 a v s) = heap_listp s"
  "seg_free (wr32 a v s) = seg_free s" "in_heap (wr32 a v s) b n = in_heap s b n"
  by (simp_all add: wr32_def in_heap_def)

lemma wr_ptr_fields [simp]:
  "mem_heap_lo (wr_ptr a p s) = mem_heap_lo s" "mem_brk (wr_ptr a p s) = mem_brk s"
  "mem_max_addr (wr_ptr a p s) = mem_max_addr s" "heap_listp (wr_ptr a p s) = heap_listp s"
  "seg_free (wr_ptr a p s) = seg_free s" "in_heap (wr_ptr a p s) b n = in_heap s b n"
  by (simp_all add: wr_ptr_def in_heap_def)

lemma rd32_wr32_same [simp]: "rd32 (wr32 a v s) a = v"
  using load_store_same [of "mem s" a "le_bytes 4 v"] by (simp add: rd32_def wr32_def)

lemma rd32_wr32_other: "b + 4 \<le> a \<or> a + 4 \<le> b \<Longrightarrow> rd32 (wr32 a v s) b = rd32 s b"
  by (simp add: rd32_def wr32_def load_store_disjoint)

lemma rd32_wr_ptr_other: "b + 4 \<le> a \<or> a + 8 \<le> b \<Longrightarrow> rd32 (wr_ptr a p s) b = rd32 s b"
  by (simp add: rd32_def wr_ptr_def load_store_disjoint)

lemma rd_ptr_wr32_other: "b + 8 \<le> a \<or> a + 4 \<le> b \<Longrightarrow> rd_ptr (wr32 a v s) b = rd_ptr s b"
  by (simp add: rd_ptr_def wr32_def load_store_disjoint)

lemma rd_ptr_wr_ptr_other: "b + 8 \<le> a \<or> a + 8 \<le> b \<Longrightarrow> rd_ptr (wr_ptr a p s) b = rd_ptr s b"
  by (simp add: rd_ptr_def wr_ptr_def load_store_disjoint)

lemma rd_ptr_wr_ptr_same: "0 \<le> p \<Longrightarrow> p < 2 ^ 64 \<Longrightarrow> rd_ptr (wr_ptr a p s) a = p"
  using load_store_same [of "mem s" a "le_bytes 8 (word_of_int p :: 64 word)"]
  by (simp add: rd_ptr_def wr_ptr_def uint_word_of_int take_bit_int_eq_self)

lemma rd_ptr_range: "0 \<le> rd_ptr s a \<and> rd_ptr s a < 2 ^ 64"
  using uint_lt2p [of "le_word (load_bytes (mem s) a 8) :: 64 word"] by (simp add: rd_ptr_def)

lemma store_bytes_inside:
  "i < length bs \<Longrightarrow> store_bytes m a bs (a + int i) = bs ! i"
proof (induction bs arbitrary: m a i)
  case Nil
  then show ?case by simp
next
  case (Cons b bs)
  show ?case
  proof (cases i)
    case 0
    have "store_bytes (m(a := b)) (a + 1) bs a = (m(a := b)) a"
      by (rule store_bytes_outside) simp
    with 0 show ?thesis by simp
  next
    case (Suc j)
    with Cons.prems have "j < length bs" by simp
    then have "store_bytes (m(a := b)) (a + 1) bs (a + 1 + int j) = bs ! j"
      by (rule Cons.IH)
    moreover have "a + 1 + int j = a + int i" using Suc by simp
    ultimately show ?thesis using Suc by simp
  qed
qed

lemma nth_load_bytes: "i < n \<Longrightarrow> load_bytes m a n ! i = m (a + int i)"
proof (induction n arbitrary: a i)
  case 0
  then show ?case by simp
next
  case (Suc n)
  show ?case
  proof (cases i)
    case 0
    then show ?thesis by simp
  next
    case (Suc j)
    with Suc.prems have "j < n" by simp
    then have "load_bytes m (a + 1) n ! j = m (a + 1 + int j)"
      by (rule Suc.IH)
    moreover have "a + 1 + int j = a + int i" using Suc by simp
    ultimately show ?thesis using Suc by simp
  qed
qed

lemma load_store_sub:
  assumes "k + n \<le> length bs"
  shows "load_bytes (store_bytes m a bs) (a + int k) n = take n (drop k bs)"
proof (rule nth_equalityI)
  show "length (load_bytes (store_bytes m a bs) (a + int k) n) = length (take n (drop k bs))"
    using assms by simp
next
  fix i
  assume "i < length (load_bytes (store_bytes m a bs) (a + int k) n)"
  then have i: "i < n" by simp
  with assms have "k + i < length bs" by simp
  from store_bytes_inside [OF this, of m a] i assms
  show "load_bytes (store_bytes m a bs) (a + int k) n ! i = take n (drop k bs) ! i"
    by (simp add: nth_load_bytes add.assoc)
qed

lemma le_bytes_add: "le_bytes (k + n) w = le_bytes k w @ le_bytes n (drop_bit (8 * k) w)"
  by (induction k arbitrary: w) (simp_all add: add.commute)

lemma le_word_le_bytes_ucast:
  "le_word (le_bytes n (w :: 'a::len word)) = (ucast (take_bit (8 * n) w) :: 'b::len word)"
proof (induction n arbitrary: w)
  case 0
  show ?case by simp
next
  case (Suc n)
  show ?case
    apply (simp add: Suc)
    apply (rule bit_word_eqI)
    apply (auto simp: bit_simps)
    done
qed


lemma take4_le_bytes8: "take 4 (le_bytes 8 w) = le_bytes 4 w"
  using le_bytes_add [of 4 4 w] by simp

lemma drop4_le_bytes8: "drop 4 (le_bytes 8 w) = le_bytes 4 (drop_bit 32 w)"
  using le_bytes_add [of 4 4 w] by simp

lemma le_word_le_bytes_4_64: "(le_word (le_bytes 4 (w :: 64 word)) :: 32 word) = ucast w"
  unfolding le_word_le_bytes_ucast
  by (rule bit_word_eqI) (auto simp: bit_simps)

lemma rd32_wr_ptr_lo: "rd32 (wr_ptr a p s) a = ucast (word_of_int p :: 64 word)"
proof -
  have "load_bytes (store_bytes (mem s) a (le_bytes 8 (word_of_int p :: 64 word))) (a + int 0) 4
      = take 4 (drop 0 (le_bytes 8 (word_of_int p :: 64 word)))"
    by (rule load_store_sub) simp
  then show ?thesis
    by (simp add: rd32_def wr_ptr_def take4_le_bytes8 le_word_le_bytes_4_64)
qed

lemma rd32_wr_ptr_hi:
  assumes "b = a + 4"
  shows "rd32 (wr_ptr a p s) b = ucast (drop_bit 32 (word_of_int p :: 64 word))"
proof -
  have "load_bytes (store_bytes (mem s) a (le_bytes 8 (word_of_int p :: 64 word))) (a + int 4) 4
      = take 4 (drop 4 (le_bytes 8 (word_of_int p :: 64 word)))"
    by (rule load_store_sub) simp
  then show ?thesis
    by (simp add: rd32_def wr_ptr_def assms drop4_le_bytes8 le_word_le_bytes_4_64)
qed








lemma rd_upd [simp]:
  "rd32 (s\<lparr>mem_brk := x\<rparr>) a = rd32 s a" "rd32 (s\<lparr>heap_listp := x\<rparr>) a = rd32 s a"
  "rd32 (s\<lparr>seg_free := x\<rparr>) a = rd32 s a"
  "rd_ptr (s\<lparr>mem_brk := x\<rparr>) a = rd_ptr s a" "rd_ptr (s\<lparr>heap_listp := x\<rparr>) a = rd_ptr s a"
  "rd_ptr (s\<lparr>seg_free := x\<rparr>) a = rd_ptr s a"
  by (simp_all add: rd32_def rd_ptr_def)

lemma load_bytes_zero: "load_bytes (\<lambda>_. 0) a n = replicate n 0"
  by (induction n arbitrary: a) simp_all

lemma le_word_zero: "le_word (replicate n 0) = 0"
  by (induction n) simp_all

lemma rd_zero: "mem s = (\<lambda>_. 0) \<Longrightarrow> rd32 s a = 0" "mem s = (\<lambda>_. 0) \<Longrightarrow> rd_ptr s a = 0"
  by (simp_all add: rd32_def rd_ptr_def load_bytes_zero le_word_zero)

lemma copy_bytes_fields [simp]:
  "mem_heap_lo (copy_bytes d a n s) = mem_heap_lo s" "mem_brk (copy_bytes d a n s) = mem_brk s"
  "mem_max_addr (copy_bytes d a n s) = mem_max_addr s" "heap_listp (copy_bytes d a n s) = heap_listp s"
  "seg_free (copy_bytes d a n s) = seg_free s" "in_heap (copy_bytes d a n s) b k = in_heap s b k"
  by (simp_all add: copy_bytes_def in_heap_def)

lemma load_bytes_sub:
  "k + j \<le> n \<Longrightarrow> take j (drop k (load_bytes m a n)) = load_bytes m (a + int k) j"
  by (rule nth_equalityI) (simp_all add: nth_load_bytes add.assoc)

lemma load_copy_inside:
  assumes "d \<le> b" "b + int j \<le> d + int n"
  shows "load_bytes (mem (copy_bytes d a n s)) b j = load_bytes (mem s) (a + (b - d)) j"
proof -
  define k where "k = nat (b - d)"
  with assms have b: "b = d + int k" and kj: "k + j \<le> n" by simp_all
  have "load_bytes (store_bytes (mem s) d (load_bytes (mem s) a n)) (d + int k) j
      = take j (drop k (load_bytes (mem s) a n))"
    by (rule load_store_sub) (simp add: kj)
  also have "\<dots> = load_bytes (mem s) (a + int k) j"
    using kj by (rule load_bytes_sub)
  finally show ?thesis by (simp add: copy_bytes_def b)
qed

lemma load_copy_outside:
  assumes "b + int j \<le> d \<or> d + int n \<le> b"
  shows "load_bytes (mem (copy_bytes d a n s)) b j = load_bytes (mem s) b j"
  using assms by (simp add: copy_bytes_def load_store_disjoint)

lemma rd_copy_bytes:
  "d \<le> b \<Longrightarrow> b + 4 \<le> d + int n \<Longrightarrow> rd32 (copy_bytes d a n s) b = rd32 s (a + (b - d))"
  "b + 4 \<le> d \<or> d + int n \<le> b \<Longrightarrow> rd32 (copy_bytes d a n s) b = rd32 s b"
  "d \<le> b \<Longrightarrow> b + 8 \<le> d + int n \<Longrightarrow> rd_ptr (copy_bytes d a n s) b = rd_ptr s (a + (b - d))"
  "b + 8 \<le> d \<or> d + int n \<le> b \<Longrightarrow> rd_ptr (copy_bytes d a n s) b = rd_ptr s b"
  by (simp_all add: rd32_def rd_ptr_def load_copy_inside load_copy_outside)

text \<open>
  The rules that run the model on a concrete state: the definitions of the
  macros and operations, and reads through the writes that came before.
\<close>

lemmas macro_defs = GET_def PUT_def GET_SIZE_def GET_ALLOC_def HDRP_def FTRP_def NEXT_BLKP_def
  PREV_BLKP_def NEXT_FREE_def PREV_FREE_def set_NEXT_FREE_def set_PREV_FREE_def get_seg_free_def
  set_seg_free_def load32_def store32_def load_ptr_def store_ptr_def WSIZE_def DSIZE_def PACK_def
  CHUNKSIZE_def BUCKETS_def mem_sbrk_def mem_heap_hi_def in_heap_def

lemmas read_write = rd32_wr_ptr_lo rd32_wr_ptr_hi rd32_wr32_other rd32_wr_ptr_other
  rd_ptr_wr32_other rd_ptr_wr_ptr_other rd_ptr_wr_ptr_same rd_copy_bytes rd_zero

section \<open>Size classes: \<^verbatim>\<open>find_bucket\<close>\<close>

lemma upt_BUCKETS: "[0..<BUCKETS] = [0, 1, 2, 3, 4, 5, 6, 7, 8, 9, 10, 11]"
  by (simp add: BUCKETS_def upt_rec)

text \<open>The loop keeps the last index whose threshold the size reaches.\<close>

lemma find_bucket_chain:
  "find_bucket sz =
     (let x = int_of_size sz in
      if 32768 \<le> x then 11 else if 16384 \<le> x then 10 else if 8192 \<le> x then 9
      else if 4096 \<le> x then 8 else if 2048 \<le> x then 7 else if 1024 \<le> x then 6
      else if 512 \<le> x then 5 else if 256 \<le> x then 4 else if 128 \<le> x then 3
      else if 64 \<le> x then 2 else if 32 \<le> x then 1 else 0)"
  by (simp add: find_bucket_def upt_BUCKETS Let_def)

lemma find_bucket_less: "find_bucket sz < BUCKETS"
  by (simp add: find_bucket_chain Let_def BUCKETS_def)

lemma int_of_size_small:
  assumes "sz < 2 ^ 31"
  shows "int_of_size sz = uint sz"
proof -
  from assms have lt: "uint sz < 2 ^ 31"
    by (simp add: word_less_def)
  have "uint (ucast sz :: 32 word) = take_bit 32 (uint sz)"
    by (simp add: unsigned_ucast_eq)
  also have "\<dots> = uint sz"
    using lt by (simp add: take_bit_int_eq_self)
  finally have u: "uint (ucast sz :: 32 word) = uint sz" .
  have "sint (ucast sz :: 32 word) = signed_take_bit 31 (uint (ucast sz :: 32 word))"
    by (simp add: sint_uint)
  also have "\<dots> = uint sz"
    unfolding u using lt uint_ge_0 [of sz] by (intro signed_take_bit_int_eq_self) linarith+
  finally show ?thesis by (simp add: int_of_size_def)
qed

lemma find_bucket_mono_int:
  "int_of_size a \<le> int_of_size b \<Longrightarrow> find_bucket a \<le> find_bucket b"
  by (simp add: find_bucket_chain Let_def)

lemma find_bucket_range:
  assumes "sz < 2 ^ 31" "0 < i" "i < 11"
  shows "find_bucket sz = i \<longleftrightarrow> 2 ^ (i + 4) \<le> uint sz \<and> uint sz < 2 ^ (i + 5)"
proof -
  from assms(2,3) have "i = 1 \<or> i = 2 \<or> i = 3 \<or> i = 4 \<or> i = 5 \<or> i = 6 \<or> i = 7 \<or> i = 8 \<or> i = 9 \<or> i = 10"
    by presburger
  then show ?thesis
    by (auto simp: find_bucket_chain int_of_size_small [OF assms(1)] Let_def)
qed

lemmas op_defs = mm_init_def extend_heap_def coalesce_def insert_free_def remove_free_def place_def
  malloc_def free_def realloc_def memcpy_def find_fit_def adjust_size_def find_fit_list.simps
  check_block_def cycle_check_def cycle_check_loop.simps check_list.simps mm_checkheap_def

lemmas run = op_defs macro_defs read_write upt_conv_Cons find_bucket_chain int_of_size_def Let_def
  fresh_arena_def init_heap_def

section \<open>The bucket an operation works on\<close>

lemma set_get_seg_free:
  "set_seg_free i p s = Some s' \<Longrightarrow> 0 \<le> p \<Longrightarrow> p < 2 ^ 64 \<Longrightarrow> get_seg_free s' i = Some p"
  by (auto simp: set_seg_free_def get_seg_free_def store_ptr_def load_ptr_def rd_ptr_wr_ptr_same
      split: if_splits)

lemma insert_free_head:
  assumes "insert_free bp s = Some s'" "GET_SIZE s (HDRP bp) = Some sz" "0 \<le> bp" "bp < 2 ^ 64"
  shows "get_seg_free s' (find_bucket (ucast sz)) = Some bp"
  using assms
  by (auto simp: insert_free_def Let_def set_get_seg_free split: bind_splits if_splits)

lemma slot_other:
  assumes "i < 12" "j < 12" "i \<noteq> j"
  shows "T + 8 * int i + 8 \<le> T + 8 * int j \<or> T + 8 * int j + 8 \<le> T + 8 * int i"
  using assms by linarith

lemma slot_off:
  assumes "off_table s x" "i < 12"
  shows "seg_free s + 8 * int i + 8 \<le> x \<or> x + 8 \<le> seg_free s + 8 * int i"
    "seg_free s + 8 * int i + 8 \<le> x + 8 \<or> x + 8 + 8 \<le> seg_free s + 8 * int i"
    "x + 8 \<le> seg_free s + 8 * int i \<or> seg_free s + 8 * int i + 8 \<le> x"
    "x + 8 + 8 \<le> seg_free s + 8 * int i \<or> seg_free s + 8 * int i + 8 \<le> x + 8"
  using assms by (auto simp: off_table_def)

lemma insert_free_bucket:
  assumes ins: "insert_free bp s = Some s'"
    and hdr: "GET_SIZE s (HDRP bp) = Some sz"
    and hd: "get_seg_free s (find_bucket (ucast sz)) = Some h"
    and bp: "0 \<le> bp" "bp < 2 ^ 64" "off_table s bp"
    and h: "h = 0 \<or> off_table s h"
  shows "get_seg_free s' (find_bucket (ucast sz)) = Some bp"
    and "NEXT_FREE s' bp = Some h"
    and "\<forall>i<BUCKETS. i \<noteq> find_bucket (ucast sz) \<longrightarrow> get_seg_free s' i = get_seg_free s i"
proof -
  define j where "j = find_bucket (ucast sz)"
  define T where "T = seg_free s"
  have j: "j < 12" using find_bucket_less [of "ucast sz"] by (simp add: j_def BUCKETS_def)
  from hd have slot: "in_heap s (T + 8 * int j) 8" and hv: "h = rd_ptr s (T + 8 * int j)"
    by (auto simp: get_seg_free_def load_ptr_def j_def T_def split: if_splits)
  have hr: "0 \<le> h" "h < 2 ^ 64" using rd_ptr_range [of s "T + 8 * int j"] by (simp_all add: hv)
  note bo = slot_off [OF bp(3), folded T_def]
  show "get_seg_free s' (find_bucket (ucast sz)) = Some bp"
    by (rule insert_free_head [OF ins hdr bp(1,2)])
  show "NEXT_FREE s' bp = Some h" 
    and "\<forall>i<BUCKETS. i \<noteq> find_bucket (ucast sz) \<longrightarrow> get_seg_free s' i = get_seg_free s i"
  proof (atomize (full), cases "h = 0")
    case True
    from ins hdr hd True have s': "s' = wr_ptr (T + 8 * int j) bp (wr_ptr (bp + 8) 0 (wr_ptr bp 0 s))"
      and lk: "in_heap s (bp + 8) 8"
      by (auto simp: insert_free_def j_def [symmetric] set_PREV_FREE_def set_NEXT_FREE_def
          set_seg_free_def store_ptr_def DSIZE_def T_def bind_eq_Some_conv split: if_splits)
    have f: "seg_free s' = seg_free s" "\<And>a n. in_heap s' a n = in_heap s a n"
      by (simp_all add: s' in_heap_def)
    have "rd_ptr s' (seg_free s + 8 * int i) = rd_ptr s (seg_free s + 8 * int i)"
      if "i < 12" "i \<noteq> j" for i
      unfolding s' T_def [symmetric]
      by (simp add: rd_ptr_wr_ptr_other [OF slot_other [OF that(1) j that(2)]]
          rd_ptr_wr_ptr_other [OF bo(1) [OF that(1)]] rd_ptr_wr_ptr_other [OF bo(2) [OF that(1)]])
    moreover have "rd_ptr s' (bp + 8) = 0"
      unfolding s' by (simp add: rd_ptr_wr_ptr_other [OF bo(4) [OF j]] rd_ptr_wr_ptr_same)
    ultimately show "NEXT_FREE s' bp = Some h \<and>
      (\<forall>i<BUCKETS. i \<noteq> find_bucket (ucast sz) \<longrightarrow> get_seg_free s' i = get_seg_free s i)"
      using lk True f
      by (simp add: NEXT_FREE_def load_ptr_def DSIZE_def get_seg_free_def BUCKETS_def j_def)
  next
    case False
    with h have ho: "off_table s h" by simp
    note hs = slot_off [OF ho, folded T_def]
    from hs(1) [OF j] have h': "rd_ptr (wr_ptr h bp s) (T + 8 * int j) = h"
      by (auto simp: rd_ptr_wr_ptr_other hv)
    from ins hdr hd False h'
    have s': "s' = wr_ptr (T + 8 * int j) bp (wr_ptr bp 0 (wr_ptr (bp + 8) h (wr_ptr h bp s)))"
      and lk: "in_heap s (bp + 8) 8"
      by (auto simp: insert_free_def j_def [symmetric] set_PREV_FREE_def set_NEXT_FREE_def
          set_seg_free_def get_seg_free_def load_ptr_def store_ptr_def DSIZE_def T_def
          bind_eq_Some_conv split: if_splits)
    have f: "seg_free s' = seg_free s" "\<And>a n. in_heap s' a n = in_heap s a n"
      by (simp_all add: s' in_heap_def)
    have "rd_ptr s' (seg_free s + 8 * int i) = rd_ptr s (seg_free s + 8 * int i)"
      if "i < 12" "i \<noteq> j" for i
      unfolding s' T_def [symmetric]
      by (simp add: rd_ptr_wr_ptr_other [OF slot_other [OF that(1) j that(2)]]
          rd_ptr_wr_ptr_other [OF bo(1) [OF that(1)]] rd_ptr_wr_ptr_other [OF bo(2) [OF that(1)]]
          rd_ptr_wr_ptr_other [OF hs(1) [OF that(1)]])
    moreover have "rd_ptr s' (bp + 8) = h"
      unfolding s' using hr
      by (simp add: rd_ptr_wr_ptr_other [OF bo(4) [OF j]] rd_ptr_wr_ptr_other rd_ptr_wr_ptr_same)
    ultimately show "NEXT_FREE s' bp = Some h \<and>
      (\<forall>i<BUCKETS. i \<noteq> find_bucket (ucast sz) \<longrightarrow> get_seg_free s' i = get_seg_free s i)"
      using lk f
      by (simp add: NEXT_FREE_def load_ptr_def DSIZE_def get_seg_free_def BUCKETS_def j_def)
  qed
qed


lemma remove_free_bucket:
  assumes rem: "remove_free bp s = Some s'"
    and hdr: "GET_SIZE s (HDRP bp) = Some sz"
    and pv: "PREV_FREE s bp = Some prv" and nx: "NEXT_FREE s bp = Some nxt"
    and p: "prv = 0 \<or> off_table s prv"
    and n: "nxt = 0 \<or> off_table s nxt \<and> (nxt \<le> bp \<or> bp + 16 \<le> nxt)"
  shows "get_seg_free s' (find_bucket (ucast sz)) =
      (if prv = 0 then Some nxt else get_seg_free s (find_bucket (ucast sz)))"
    and "\<forall>i<BUCKETS. i \<noteq> find_bucket (ucast sz) \<longrightarrow> get_seg_free s' i = get_seg_free s i"
proof -
  define j where "j = find_bucket (ucast sz)"
  define T where "T = seg_free s"
  have j: "j < 12" using find_bucket_less [of "ucast sz"] by (simp add: j_def BUCKETS_def)
  from nx have nr: "0 \<le> nxt" "nxt < 2 ^ 64"
    using rd_ptr_range [of s "bp + 8"]
    by (auto simp: NEXT_FREE_def load_ptr_def DSIZE_def split: if_splits)
  have goal: "get_seg_free s' j = (if prv = 0 then Some nxt else get_seg_free s j) \<and>
      (\<forall>i<BUCKETS. i \<noteq> j \<longrightarrow> get_seg_free s' i = get_seg_free s i)"
  proof -
    consider (sole) "prv = 0" "nxt = 0" | (head) "prv = 0" "nxt \<noteq> 0"
      | (last) "prv \<noteq> 0" "nxt = 0" | (mid) "prv \<noteq> 0" "nxt \<noteq> 0" by blast
    then show ?thesis
    proof cases
      case sole
      from rem hdr pv nx sole have s': "s' = wr_ptr (T + 8 * int j) 0 s"
        and slot: "in_heap s (T + 8 * int j) 8"
        by (auto simp: remove_free_def j_def [symmetric] set_seg_free_def store_ptr_def T_def
            split: if_splits)
      have f: "seg_free s' = seg_free s" "\<And>a n. in_heap s' a n = in_heap s a n"
        by (simp_all add: s' in_heap_def)
      have "rd_ptr s' (seg_free s + 8 * int i) = rd_ptr s (seg_free s + 8 * int i)"
        if "i < 12" "i \<noteq> j" for i
        unfolding s' T_def [symmetric]
        by (simp add: rd_ptr_wr_ptr_other [OF slot_other [OF that(1) j that(2)]])
      moreover have "rd_ptr s' (T + 8 * int j) = 0" unfolding s' by (simp add: rd_ptr_wr_ptr_same)
      ultimately show ?thesis using sole slot f
        by (simp add: get_seg_free_def load_ptr_def BUCKETS_def T_def)
    next
      case head
      with n have no: "off_table s nxt" and nb: "nxt \<le> bp \<or> bp + 16 \<le> nxt" by simp_all
      note ns = slot_off [OF no, folded T_def]
      from nb have d: "bp + 8 + 8 \<le> nxt \<or> nxt + 8 \<le> bp + 8" by linarith
      have n': "rd_ptr (wr_ptr nxt 0 s) (bp + 8) = nxt"
        using nx by (auto simp: rd_ptr_wr_ptr_other [OF d] NEXT_FREE_def load_ptr_def DSIZE_def
            split: if_splits)
      from rem hdr pv nx head n'
      have s': "s' = wr_ptr (T + 8 * int j) nxt (wr_ptr nxt 0 s)"
        and slot: "in_heap s (T + 8 * int j) 8"
        by (auto simp: remove_free_def j_def [symmetric] set_seg_free_def store_ptr_def T_def
            set_PREV_FREE_def NEXT_FREE_def load_ptr_def DSIZE_def bind_eq_Some_conv
            split: if_splits)
      have f: "seg_free s' = seg_free s" "\<And>a n. in_heap s' a n = in_heap s a n"
        by (simp_all add: s' in_heap_def)
      have "rd_ptr s' (seg_free s + 8 * int i) = rd_ptr s (seg_free s + 8 * int i)"
        if "i < 12" "i \<noteq> j" for i
        unfolding s' T_def [symmetric]
        by (simp add: rd_ptr_wr_ptr_other [OF slot_other [OF that(1) j that(2)]]
            rd_ptr_wr_ptr_other [OF ns(1) [OF that(1)]])
      moreover have "rd_ptr s' (T + 8 * int j) = nxt"
        unfolding s' using nr by (simp add: rd_ptr_wr_ptr_same)
      ultimately show ?thesis using head slot f
        by (simp add: get_seg_free_def load_ptr_def BUCKETS_def T_def)
    next
      case last
      with p have po: "off_table s prv" by simp
      note ps = slot_off [OF po, folded T_def]
      from rem hdr pv nx last have s': "s' = wr_ptr (prv + 8) 0 s"
        by (auto simp: remove_free_def j_def [symmetric] set_NEXT_FREE_def store_ptr_def DSIZE_def
            split: if_splits)
      have f: "seg_free s' = seg_free s" "\<And>a n. in_heap s' a n = in_heap s a n"
        by (simp_all add: s' in_heap_def)
      have "rd_ptr s' (seg_free s + 8 * int i) = rd_ptr s (seg_free s + 8 * int i)"
        if "i < 12" for i
        unfolding s' T_def [symmetric]
        by (simp add: rd_ptr_wr_ptr_other [OF ps(2) [OF that(1)]])
      then show ?thesis using last f j
        by (simp add: get_seg_free_def load_ptr_def BUCKETS_def)
    next
      case mid
      with p n have po: "off_table s prv" and no: "off_table s nxt" by simp_all
      note ps = slot_off [OF po, folded T_def]
      note ns = slot_off [OF no, folded T_def]
      from rem hdr pv nx mid have s': "s' = wr_ptr nxt prv (wr_ptr (prv + 8) nxt s)"
        by (auto simp: remove_free_def j_def [symmetric] set_NEXT_FREE_def set_PREV_FREE_def
            store_ptr_def DSIZE_def bind_eq_Some_conv split: if_splits)
      have f: "seg_free s' = seg_free s" "\<And>a n. in_heap s' a n = in_heap s a n"
        by (simp_all add: s' in_heap_def)
      have "rd_ptr s' (seg_free s + 8 * int i) = rd_ptr s (seg_free s + 8 * int i)"
        if "i < 12" for i
        unfolding s' T_def [symmetric]
        by (simp add: rd_ptr_wr_ptr_other [OF ps(2) [OF that(1)]]
            rd_ptr_wr_ptr_other [OF ns(1) [OF that(1)]])
      then show ?thesis using mid f j
        by (simp add: get_seg_free_def load_ptr_def BUCKETS_def)
    qed
  qed
  from goal show "get_seg_free s' (find_bucket (ucast sz)) =
      (if prv = 0 then Some nxt else get_seg_free s (find_bucket (ucast sz)))"
    by (simp add: j_def)
  from goal show "\<forall>i<BUCKETS. i \<noteq> find_bucket (ucast sz) \<longrightarrow> get_seg_free s' i = get_seg_free s i"
    by (simp add: j_def)
qed


text \<open>
  The walk over a bucket list compares the bucket with \<^verbatim>\<open>find_bucket\<close> of
  \<^verbatim>\<open>GET_SIZE(flp)\<close>, the word at the block pointer itself.
\<close>

lemma check_list_bucket:
  assumes "check_list s i flp = Some out" "flp \<noteq> 0" "GET_SIZE s flp = Some sz"
    "find_bucket (ucast sz) \<noteq> i"
  shows "''Blocks are not in correct seg_list'' \<in> set out"
  using assms
  by (subst (asm) check_list.simps) (auto split: bind_splits if_splits)

lemma find_bucket_zero: "sz < 2 ^ 31 \<Longrightarrow> find_bucket sz = 0 \<longleftrightarrow> uint sz < 32"
  by (auto simp: find_bucket_chain int_of_size_small Let_def)

lemma find_bucket_last: "sz < 2 ^ 31 \<Longrightarrow> find_bucket sz = 11 \<longleftrightarrow> 2 ^ 15 \<le> uint sz"
  by (auto simp: find_bucket_chain int_of_size_small Let_def)

text \<open>
  C5 (amended). \<^verbatim>\<open>find_bucket\<close> is a monotonic step function of the size as long
  as the size fits a non-negative \<^verbatim>\<open>int\<close> (it is narrowed to \<^verbatim>\<open>int\<close> before it is
  compared): for sizes \<open>s1 \<le> s2 < 2^31\<close> the bucket of \<open>s1\<close> is at most the bucket
  of \<open>s2\<close>; the index is below \<^verbatim>\<open>BUCKETS\<close>; bucket 0 holds the sizes below 32,
  bucket \<open>i\<close> (for \<open>0 < i < 11\<close>) the sizes from \<open>2^(i+4)\<close> up to, not including,
  \<open>2^(i+5)\<close>, and the last bucket every size from \<open>2^15\<close> on. The same function
  selects the bucket in \<^verbatim>\<open>insert_free\<close> and in \<^verbatim>\<open>remove_free\<close>, for blocks whose
  link cells lie outside the bucket table: \<^verbatim>\<open>insert_free\<close> makes the block the head of
  the bucket of its header size, in front of the former head of that bucket;
  \<^verbatim>\<open>remove_free\<close> of a block without predecessor makes its successor the head of
  the bucket of its header size, and of a block with a predecessor leaves that
  head as it is; neither changes the head of any other bucket.
\<close>

theorem find_bucket_classes:
  assumes "s1 \<le> s2" and "s2 < 2 ^ 31"
  shows "find_bucket s1 \<le> find_bucket s2
    \<and> find_bucket s2 < BUCKETS
    \<and> (find_bucket s2 = 0 \<longleftrightarrow> uint s2 < 32)
    \<and> (\<forall>i. 0 < i \<and> i < 11 \<longrightarrow>
          (find_bucket s2 = i \<longleftrightarrow> 2 ^ (i + 4) \<le> uint s2 \<and> uint s2 < 2 ^ (i + 5)))
    \<and> (find_bucket s2 = 11 \<longleftrightarrow> 2 ^ 15 \<le> uint s2)
    \<and> (\<forall>bp s s' sz h. insert_free bp s = Some s' \<and> GET_SIZE s (HDRP bp) = Some sz
           \<and> get_seg_free s (find_bucket (ucast sz)) = Some h
           \<and> 0 \<le> bp \<and> bp < 2 ^ 64 \<and> off_table s bp \<and> (h = 0 \<or> off_table s h)
          \<longrightarrow> get_seg_free s' (find_bucket (ucast sz)) = Some bp
            \<and> NEXT_FREE s' bp = Some h
            \<and> (\<forall>i<BUCKETS. i \<noteq> find_bucket (ucast sz)
                  \<longrightarrow> get_seg_free s' i = get_seg_free s i))
    \<and> (\<forall>bp s s' sz prv nxt. remove_free bp s = Some s' \<and> GET_SIZE s (HDRP bp) = Some sz
           \<and> PREV_FREE s bp = Some prv \<and> NEXT_FREE s bp = Some nxt
           \<and> (prv = 0 \<or> off_table s prv)
           \<and> (nxt = 0 \<or> off_table s nxt \<and> (nxt \<le> bp \<or> bp + 16 \<le> nxt))
          \<longrightarrow> get_seg_free s' (find_bucket (ucast sz))
              = (if prv = 0 then Some nxt else get_seg_free s (find_bucket (ucast sz)))
            \<and> (\<forall>i<BUCKETS. i \<noteq> find_bucket (ucast sz)
                  \<longrightarrow> get_seg_free s' i = get_seg_free s i))"
proof -
  from assms have s1: "s1 < 2 ^ 31" by simp
  from assms(1) have "uint s1 \<le> uint s2" by (simp add: word_le_def)
  then have "int_of_size s1 \<le> int_of_size s2"
    by (simp add: int_of_size_small [OF s1] int_of_size_small [OF assms(2)])
  then have mono: "find_bucket s1 \<le> find_bucket s2" by (rule find_bucket_mono_int)
  have rng: "\<forall>i. 0 < i \<and> i < 11 \<longrightarrow>
          (find_bucket s2 = i \<longleftrightarrow> 2 ^ (i + 4) \<le> uint s2 \<and> uint s2 < 2 ^ (i + 5))"
    using find_bucket_range [OF assms(2)] by blast
  have ins: "\<forall>bp s s' sz h. insert_free bp s = Some s' \<and> GET_SIZE s (HDRP bp) = Some sz
           \<and> get_seg_free s (find_bucket (ucast sz)) = Some h
           \<and> 0 \<le> bp \<and> bp < 2 ^ 64 \<and> off_table s bp \<and> (h = 0 \<or> off_table s h)
          \<longrightarrow> get_seg_free s' (find_bucket (ucast sz)) = Some bp
            \<and> NEXT_FREE s' bp = Some h
            \<and> (\<forall>i<BUCKETS. i \<noteq> find_bucket (ucast sz)
                  \<longrightarrow> get_seg_free s' i = get_seg_free s i)"
  proof (intro allI impI)
    fix bp s s' sz h
    assume "insert_free bp s = Some s' \<and> GET_SIZE s (HDRP bp) = Some sz
           \<and> get_seg_free s (find_bucket (ucast sz)) = Some h
           \<and> 0 \<le> bp \<and> bp < 2 ^ 64 \<and> off_table s bp \<and> (h = 0 \<or> off_table s h)"
    then have a: "insert_free bp s = Some s'" "GET_SIZE s (HDRP bp) = Some sz"
      "get_seg_free s (find_bucket (ucast sz)) = Some h"
      "0 \<le> bp" "bp < 2 ^ 64" "off_table s bp" "h = 0 \<or> off_table s h"
      by simp_all
    from insert_free_bucket [OF a]
    show "get_seg_free s' (find_bucket (ucast sz)) = Some bp
            \<and> NEXT_FREE s' bp = Some h
            \<and> (\<forall>i<BUCKETS. i \<noteq> find_bucket (ucast sz)
                  \<longrightarrow> get_seg_free s' i = get_seg_free s i)"
      by (intro conjI)
  qed
  have rem: "\<forall>bp s s' sz prv nxt. remove_free bp s = Some s' \<and> GET_SIZE s (HDRP bp) = Some sz
           \<and> PREV_FREE s bp = Some prv \<and> NEXT_FREE s bp = Some nxt
           \<and> (prv = 0 \<or> off_table s prv)
           \<and> (nxt = 0 \<or> off_table s nxt \<and> (nxt \<le> bp \<or> bp + 16 \<le> nxt))
          \<longrightarrow> get_seg_free s' (find_bucket (ucast sz))
              = (if prv = 0 then Some nxt else get_seg_free s (find_bucket (ucast sz)))
            \<and> (\<forall>i<BUCKETS. i \<noteq> find_bucket (ucast sz)
                  \<longrightarrow> get_seg_free s' i = get_seg_free s i)"
  proof (intro allI impI)
    fix bp s s' sz prv nxt
    assume "remove_free bp s = Some s' \<and> GET_SIZE s (HDRP bp) = Some sz
           \<and> PREV_FREE s bp = Some prv \<and> NEXT_FREE s bp = Some nxt
           \<and> (prv = 0 \<or> off_table s prv)
           \<and> (nxt = 0 \<or> off_table s nxt \<and> (nxt \<le> bp \<or> bp + 16 \<le> nxt))"
    then have a: "remove_free bp s = Some s'" "GET_SIZE s (HDRP bp) = Some sz"
      "PREV_FREE s bp = Some prv" "NEXT_FREE s bp = Some nxt" "prv = 0 \<or> off_table s prv"
      "nxt = 0 \<or> off_table s nxt \<and> (nxt \<le> bp \<or> bp + 16 \<le> nxt)"
      by simp_all
    from remove_free_bucket [OF a]
    show "get_seg_free s' (find_bucket (ucast sz))
              = (if prv = 0 then Some nxt else get_seg_free s (find_bucket (ucast sz)))
            \<and> (\<forall>i<BUCKETS. i \<noteq> find_bucket (ucast sz)
                  \<longrightarrow> get_seg_free s' i = get_seg_free s i)"
      by (intro conjI)
  qed
  from mono find_bucket_less [of s2] find_bucket_zero [OF assms(2)] rng
    find_bucket_last [OF assms(2)] ins rem
  show ?thesis by (intro conjI)
qed


theorem find_bucket_classes_witness:
  "(24 :: size_t) \<le> 168 \<and> (168 :: size_t) < 2 ^ 31
   \<and> find_bucket 24 \<le> find_bucket 168 \<and> find_bucket 168 = 3 \<and> find_bucket 40 = 1
   \<and> get_seg_free heap_w 1 = Some 4208 \<and> NEXT_FREE heap_w 4208 = Some 4272
   \<and> get_seg_free (the (remove_free 4208 heap_w)) 1 = Some 4272
   \<and> get_seg_free (the (remove_free 4208 heap_w)) 0 = get_seg_free heap_w 0
   \<and> get_seg_free (the (insert_free 4208 (the (remove_free 4208 heap_w)))) 1 = Some 4208
   \<and> NEXT_FREE (the (insert_free 4208 (the (remove_free 4208 heap_w)))) 4208 = Some 4272
   \<and> get_seg_free (the (insert_free 4208 (the (remove_free 4208 heap_w)))) 0
       = get_seg_free (the (remove_free 4208 heap_w)) 0"
proof -
  have h1: "(24 :: size_t) \<le> 168" and h2: "(168 :: size_t) < 2 ^ 31" by simp_all
  note T = find_bucket_classes [OF h1 h2]
  have b: "find_bucket 168 = 3" "find_bucket 40 = 1"
    by (simp_all add: find_bucket_chain int_of_size_def)
  have sz: "GET_SIZE heap_w (HDRP 4208) = Some 40"
    and pn: "PREV_FREE heap_w 4208 = Some 0" "NEXT_FREE heap_w 4208 = Some 4272"
    and hd: "get_seg_free heap_w 1 = Some 4208"
    and tb: "seg_free heap_w = 4096"
    by (simp_all add: heap_w_def run)
  have r: "remove_free 4208 heap_w = Some (the (remove_free 4208 heap_w))"
    by (simp add: heap_w_def run)
  define sr where "sr = the (remove_free 4208 heap_w)"
  have sz': "GET_SIZE sr (HDRP 4208) = Some 40" and tb': "seg_free sr = 4096"
    and i: "insert_free 4208 sr = Some (the (insert_free 4208 sr))"
    by (simp_all add: sr_def heap_w_def run)
  note mono = T [THEN conjunct1]
  note ins = T [THEN conjunct2, THEN conjunct2, THEN conjunct2, THEN conjunct2, THEN conjunct2,
      THEN conjunct1, rule_format]
  note rem = T [THEN conjunct2, THEN conjunct2, THEN conjunct2, THEN conjunct2, THEN conjunct2,
      THEN conjunct2, rule_format]
  from rem [of 4208 heap_w sr 40 0 4272] r sz pn
  have R: "get_seg_free sr 1 = Some 4272" "get_seg_free sr 0 = get_seg_free heap_w 0"
    by (simp_all add: b off_table_def tb sr_def BUCKETS_def)
  from ins [of 4208 sr "the (insert_free 4208 sr)" 40 4272] i sz' R(1)
  have I: "get_seg_free (the (insert_free 4208 sr)) 1 = Some 4208"
    "NEXT_FREE (the (insert_free 4208 sr)) 4208 = Some 4272"
    "get_seg_free (the (insert_free 4208 sr)) 0 = get_seg_free sr 0"
    by (simp_all add: b off_table_def tb' BUCKETS_def)
  show ?thesis using h1 h2 b hd pn(2) R I mono unfolding sr_def by simp
qed

text \<open>
  C5 as stated fails for sizes that do not fit an \<^verbatim>\<open>int\<close>: the size \<open>2^31\<close> is
  narrowed to a negative number and lands in bucket 0, below the bucket of 32.
\<close>

theorem find_bucket_mono_counterexample:
  "(32 :: size_t) \<le> 2 ^ 31 \<and> find_bucket 32 = 1 \<and> find_bucket (2 ^ 31) = 0
   \<and> \<not> find_bucket 32 \<le> find_bucket (2 ^ 31)"
  by (simp add: find_bucket_chain int_of_size_def)

section \<open>Freeing without coalescing\<close>

text \<open>
  C1 (code defect). Three blocks are allocated one after the other: \<open>a\<close> (24
  bytes), \<open>b\<close> (40 bytes) and \<open>c\<close>, so that \<open>a\<close> and \<open>b\<close> are adjacent and lie
  between the prologue and the allocated \<open>c\<close>. Freeing \<open>a\<close> and \<open>b\<close>, in either
  order, leaves two free blocks of 24 and 40 bytes instead of one of 64: each
  \<^verbatim>\<open>free\<close> finds the bucket of its block empty and inserts the block without
  looking at its neighbours. \<^verbatim>\<open>check_block\<close> then reports the pair.
\<close>

theorem free_adjacent_not_merged:
  "do { (r, s) \<leftarrow> mm_init fresh_arena; (a, s) \<leftarrow> malloc 10 s; (b, s) \<leftarrow> malloc 30 s;
        (c, s) \<leftarrow> malloc 10 s; s \<leftarrow> free a s; s \<leftarrow> free b s;
        Some (a, b, c, GET s (HDRP a), GET s (HDRP b), GET s (HDRP c), check_blocks s a) }
   = Some (4208, 4232, 4272, Some 24, Some 40, Some 25, Some ([''Consecutive free blocks''], 4376))
  \<and> do { (r, s) \<leftarrow> mm_init fresh_arena; (a, s) \<leftarrow> malloc 10 s; (b, s) \<leftarrow> malloc 30 s;
        (c, s) \<leftarrow> malloc 10 s; s \<leftarrow> free b s; s \<leftarrow> free a s;
        Some (a, b, c, GET s (HDRP a), GET s (HDRP b), GET s (HDRP c), check_blocks s a) }
   = Some (4208, 4232, 4272, Some 24, Some 40, Some 25, Some ([''Consecutive free blocks''], 4376))"
  by (simp add: run)

text \<open>
  C2 (code defect). The state reached by \<^verbatim>\<open>mm_init\<close>, three calls of \<^verbatim>\<open>malloc\<close>
  and two of \<^verbatim>\<open>free\<close>, each on a pointer that \<^verbatim>\<open>malloc\<close> returned, breaks the
  invariant that no two adjacent blocks are free: the checker's walk over the
  blocks, started at \<^verbatim>\<open>heap_listp\<close>, prints \<^verbatim>\<open>Consecutive free blocks\<close>. Both blocks
  are free and adjacent: the header of \<open>a\<close> holds 24, and 24 bytes further the
  header of \<open>b\<close> holds 40, both with the allocation bit clear.
\<close>

theorem reachable_state_breaks_invariant:
  "do { (r, s) \<leftarrow> mm_init fresh_arena; (a, s) \<leftarrow> malloc 10 s; (b, s) \<leftarrow> malloc 30 s;
        (c, s) \<leftarrow> malloc 10 s; s \<leftarrow> free a s; s \<leftarrow> free b s;
        Some (r, check_blocks s (heap_listp s), GET_ALLOC s (HDRP a), NEXT_BLKP s a = Some b,
              GET_ALLOC s (HDRP b)) }
   = Some (0, Some ([''Consecutive free blocks''], 4376), Some 0, True, Some 0)"
  by (simp add: run)

section \<open>The cycle check\<close>

text \<open>
  C4 (code defect). After \<^verbatim>\<open>mm_init\<close> bucket 3 holds one free block, a list that
  ends in \<^verbatim>\<open>NULL\<close> after one element. On it \<^verbatim>\<open>cycle_check\<close> does not return: in
  the first round the hare reads the link of the block, which is \<^verbatim>\<open>NULL\<close>, and
  then the link of \<^verbatim>\<open>NULL\<close>, at address 8, outside the arena. So does
  \<^verbatim>\<open>mm_checkheap\<close>, which calls it on every bucket.
\<close>

theorem cycle_check_reads_null:
  "do { (r, s) \<leftarrow> mm_init fresh_arena; h \<leftarrow> get_seg_free s 3; n \<leftarrow> NEXT_FREE s h;
        Some (r, h, n, NEXT_FREE s n, cycle_check s h, mm_checkheap 0 s) }
   = Some (0, 4208, 0, None, None, None)"
  by (simp add: run)

section \<open>The adjusted block size\<close>

lemma adjust_size_small: "0 < sz \<Longrightarrow> sz \<le> 8 \<Longrightarrow> adjust_size sz = 24"
  by (simp add: adjust_size_def)

lemma adjust_size_unat:
  assumes "8 < sz" "sz \<le> 2 ^ 64 - 16"
  shows "unat (adjust_size sz) = 8 * ((unat sz + 8 + 7) div 8)"
proof -
  from assms have b: "8 < unat sz" "unat sz \<le> 2 ^ 64 - 16"
    by (simp_all add: word_less_nat_alt word_le_nat_alt)
  have a: "unat (sz + 8 + (8 - 1)) = unat sz + 15"
    using b by (simp add: unat_word_ariths)
  have d: "unat ((sz + 8 + (8 - 1)) div 8) = (unat sz + 15) div 8"
    by (simp only: unat_div a) simp
  have e: "unat (8 * ((sz + 8 + (8 - 1)) div 8)) = 8 * ((unat sz + 15) div 8)"
    using b by (simp only: unat_word_ariths d) simp
  have "\<not> sz \<le> 8" using assms(1) by (simp add: not_le)
  then have "adjust_size sz = 8 * ((sz + 8 + (8 - 1)) div 8)"
    by (simp add: adjust_size_def)
  then show ?thesis by (simp only: e) simp
qed

text \<open>
  Below the last fifteen values of \<^verbatim>\<open>size_t\<close> the adjusted size is what C6 says:
  24 for a request of at most 8 bytes, and otherwise the request plus 8, rounded
  up to the next multiple of 8; every request of at most 16 bytes gives 24.
\<close>

lemma adjust_size_in_range:
  assumes "0 < sz" "sz \<le> 2 ^ 64 - 16"
  shows "(sz \<le> 8 \<longrightarrow> adjust_size sz = 24)
       \<and> (8 < sz \<longrightarrow> unat (adjust_size sz) = 8 * ((unat sz + 8 + 7) div 8))
       \<and> (sz \<le> 16 \<longrightarrow> adjust_size sz = 24)"
proof (intro conjI impI)
  assume "sz \<le> 8" with assms(1) show "adjust_size sz = 24" by (rule adjust_size_small)
next
  assume "8 < sz" then show "unat (adjust_size sz) = 8 * ((unat sz + 8 + 7) div 8)"
    using assms(2) by (rule adjust_size_unat)
next
  assume le: "sz \<le> 16"
  show "adjust_size sz = 24"
  proof (cases "sz \<le> 8")
    case True
    with assms(1) show ?thesis by (rule adjust_size_small)
  next
    case False
    then have g: "8 < sz" by (simp add: not_le)
    from le have "sz \<le> 2 ^ 64 - 16" by (simp add: word_le_nat_alt)
    with g have u: "unat (adjust_size sz) = 8 * ((unat sz + 8 + 7) div 8)" by (rule adjust_size_unat)
    from g le have "8 < unat sz" "unat sz \<le> 16" by (simp_all add: word_less_nat_alt word_le_nat_alt)
    then have "8 * ((unat sz + 8 + 7) div 8) = 24" by presburger
    with u have "unat (adjust_size sz) = unat (24 :: size_t)" by simp
    then show ?thesis by (simp only: word_unat_eq_iff)
  qed
qed

text \<open>
  C6 (code defect). The sum \<open>size + DSIZE + (DSIZE - 1)\<close> wraps around for the last
  fifteen values of \<^verbatim>\<open>size_t\<close>: a request of \<open>2^64 - 1\<close> bytes is adjusted to a block
  of 8 bytes, not to the request plus overhead rounded up, and \<^verbatim>\<open>malloc\<close> on the
  arena after \<^verbatim>\<open>mm_init\<close> returns a block whose header and footer (which
  lies at the block pointer itself) hold size 8.
\<close>

theorem adjust_size_wraps:
  "adjust_size (2 ^ 64 - 1) = 8
   \<and> do { (r, s) \<leftarrow> mm_init fresh_arena; (p, s) \<leftarrow> malloc (2 ^ 64 - 1) s;
          Some (p, GET s (HDRP p), FTRP s p, GET s p) }
     = Some (4208, Some 9, Some 4208, Some 9)"
  by (simp add: run)

section \<open>What the operations leave alone\<close>

lemma same_arena_refl [simp]: "same_arena s s"
  by (simp add: same_arena_def)

lemma same_arena_trans: "same_arena s s' \<Longrightarrow> same_arena s' s'' \<Longrightarrow> same_arena s s''"
  by (simp add: same_arena_def)

lemma same_arena_in_heap: "same_arena s s' \<Longrightarrow> in_heap s' a n = in_heap s a n"
  by (simp add: same_arena_def in_heap_def)

lemma store32_arena: "store32 a v s = Some s' \<Longrightarrow> same_arena s s'"
  by (auto simp: store32_def same_arena_def split: if_splits)

lemma store_ptr_arena: "store_ptr a p s = Some s' \<Longrightarrow> same_arena s s'"
  by (auto simp: store_ptr_def same_arena_def split: if_splits)

lemma PUT_arena: "PUT a v s = Some s' \<Longrightarrow> same_arena s s'"
  by (simp add: PUT_def store32_arena)

lemma set_link_arena:
  "set_NEXT_FREE bp p s = Some s' \<Longrightarrow> same_arena s s'"
  "set_PREV_FREE bp p s = Some s' \<Longrightarrow> same_arena s s'"
  "set_seg_free i p s = Some s' \<Longrightarrow> same_arena s s'"
  by (simp_all add: set_NEXT_FREE_def set_PREV_FREE_def set_seg_free_def store_ptr_arena)

lemma insert_free_arena: "insert_free bp s = Some s' \<Longrightarrow> same_arena s s'"
  by (auto simp: insert_free_def Let_def bind_eq_Some_conv same_arena_def split: if_splits
      dest!: set_link_arena [unfolded same_arena_def])

lemma remove_free_arena: "remove_free bp s = Some s' \<Longrightarrow> same_arena s s'"
  by (auto simp: remove_free_def Let_def bind_eq_Some_conv same_arena_def split: if_splits
      dest!: set_link_arena [unfolded same_arena_def])

lemma place_arena: "place bp asize s = Some s' \<Longrightarrow> same_arena s s'"
  by (auto simp: place_def Let_def bind_eq_Some_conv same_arena_def split: if_splits
      dest!: PUT_arena [unfolded same_arena_def] remove_free_arena [unfolded same_arena_def]
        insert_free_arena [unfolded same_arena_def])

lemma coalesce_arena: "coalesce bp s = Some (r, s') \<Longrightarrow> same_arena s s'"
  by (auto simp: coalesce_def Let_def bind_eq_Some_conv same_arena_def split: if_splits
      dest!: PUT_arena [unfolded same_arena_def] remove_free_arena [unfolded same_arena_def]
        insert_free_arena [unfolded same_arena_def])


lemma insert_free_lo: "insert_free bp s = Some s' \<Longrightarrow> mem_heap_lo s \<le> bp - 4"
  by (auto simp: insert_free_def bind_eq_Some_conv GET_SIZE_def GET_def load32_def in_heap_def
      HDRP_def WSIZE_def split: if_splits)

lemma coalesce_nonnull:
  assumes "coalesce bp s = Some (r, s')" "0 \<le> mem_heap_lo s"
  shows "r \<noteq> 0"
  using assms
  by (auto simp: coalesce_def Let_def bind_eq_Some_conv same_arena_def split: if_splits
      dest!: PUT_arena [unfolded same_arena_def] remove_free_arena [unfolded same_arena_def]
        insert_free_lo)

lemma extend_heap_null:
  assumes "extend_heap w s = Some (0, s')" "0 \<le> mem_heap_lo s" "mem_brk s < 2 ^ 64 - 1"
  shows "s' = s"
  using assms
  by (auto simp: extend_heap_def Let_def mem_sbrk_def bind_eq_Some_conv same_arena_def
      split: if_splits prod.splits
      dest!: PUT_arena [unfolded same_arena_def] coalesce_nonnull)

lemma malloc_null_unchanged:
  assumes "malloc sz s = Some (0, s')" "sz \<noteq> 0" "heap_listp s \<noteq> 0"
    "0 \<le> mem_heap_lo s" "mem_brk s < 2 ^ 64 - 1"
  shows "s' = s"
  using assms
  by (auto simp: malloc_def Let_def bind_eq_Some_conv split: if_splits prod.splits
      dest: extend_heap_null)


section \<open>\<^verbatim>\<open>realloc\<close>: the special cases\<close>

text \<open>
  C9 (amended). \<^verbatim>\<open>realloc(p, 0)\<close> is \<^verbatim>\<open>free(p)\<close> and returns \<^verbatim>\<open>NULL\<close>, for every
  pointer \<open>p\<close>. \<^verbatim>\<open>realloc(NULL, n)\<close> is \<^verbatim>\<open>malloc(n)\<close> for every \<open>n > 0\<close>, and for
  \<open>n = 0\<close> once the heap is initialised. When \<open>p\<close> is not \<^verbatim>\<open>NULL\<close>, \<open>n > 0\<close>, the
  heap is initialised, and the internal \<^verbatim>\<open>malloc\<close> returns \<^verbatim>\<open>NULL\<close>, then
  \<^verbatim>\<open>realloc\<close> returns \<^verbatim>\<open>NULL\<close> and the whole state, the original block with it,
  is what it was before the call. (The arena is assumed to lie at non-negative
  addresses and to end below \<^verbatim>\<open>(void *)-1\<close>.)
\<close>

theorem realloc_special_cases:
  "realloc ptr 0 s = map_option (Pair 0) (free ptr s)
   \<and> (sz \<noteq> 0 \<longrightarrow> realloc 0 sz s = malloc sz s)
   \<and> (heap_listp s \<noteq> 0 \<longrightarrow> realloc 0 0 s = malloc 0 s)
   \<and> (ptr \<noteq> 0 \<and> sz \<noteq> 0 \<and> heap_listp s \<noteq> 0 \<and> 0 \<le> mem_heap_lo s \<and> mem_brk s < 2 ^ 64 - 1
        \<and> malloc sz s = Some (0, s')
      \<longrightarrow> realloc ptr sz s = Some (0, s) \<and> s' = s)"
proof (intro conjI impI)
  show "realloc ptr 0 s = map_option (Pair 0) (free ptr s)"
    by (cases "free ptr s") (simp_all add: realloc_def)
next
  assume "sz \<noteq> 0" then show "realloc 0 sz s = malloc sz s"
    by (simp add: realloc_def)
next
  assume "heap_listp s \<noteq> 0" then show "realloc 0 0 s = malloc 0 s"
    by (simp add: realloc_def free_def malloc_def)
next
  assume a: "ptr \<noteq> 0 \<and> sz \<noteq> 0 \<and> heap_listp s \<noteq> 0 \<and> 0 \<le> mem_heap_lo s \<and> mem_brk s < 2 ^ 64 - 1
        \<and> malloc sz s = Some (0, s')"
  then have "s' = s" by (intro malloc_null_unchanged [of sz s s']) simp_all
  with a show "realloc ptr sz s = Some (0, s)" by (simp add: realloc_def)
next
  assume a: "ptr \<noteq> 0 \<and> sz \<noteq> 0 \<and> heap_listp s \<noteq> 0 \<and> 0 \<le> mem_heap_lo s \<and> mem_brk s < 2 ^ 64 - 1
        \<and> malloc sz s = Some (0, s')"
  then show "s' = s" by (intro malloc_null_unchanged [of sz s s']) simp_all
qed

text \<open>
  C9 as stated fails for \<^verbatim>\<open>realloc(NULL, 0)\<close> before the heap is initialised: the
  size is tested first, so the call is \<^verbatim>\<open>free(NULL)\<close> and leaves the arena as
  it is, while \<^verbatim>\<open>malloc(0)\<close> runs \<^verbatim>\<open>mm_init\<close> and grows the arena to 4376.
\<close>

theorem realloc_null_zero_counterexample:
  "realloc 0 0 fresh_arena = Some (0, fresh_arena)
   \<and> mem_brk fresh_arena = 4096
   \<and> fst (the (malloc 0 fresh_arena)) = 0
   \<and> mem_brk (snd (the (malloc 0 fresh_arena))) = 4376"
  by (simp add: run)

theorem realloc_special_cases_witness:
  "realloc 4208 0 full_heap = map_option (Pair 0) (free 4208 full_heap)
   \<and> (1000 :: size_t) \<noteq> 0 \<and> realloc 0 1000 full_heap = malloc 1000 full_heap
   \<and> heap_listp full_heap \<noteq> 0 \<and> realloc 0 0 full_heap = malloc 0 full_heap
   \<and> (4208 :: int) \<noteq> 0 \<and> 0 \<le> mem_heap_lo full_heap \<and> mem_brk full_heap < 2 ^ 64 - 1
   \<and> GET full_heap (HDRP 4208) = Some 25
   \<and> malloc 1000 full_heap = Some (0, full_heap)
   \<and> realloc 4208 1000 full_heap = Some (0, full_heap)"
proof -
  have m: "malloc 1000 full_heap = Some (0, full_heap)"
    by (simp add: full_heap_def run)
  have f: "heap_listp full_heap \<noteq> 0" "0 \<le> mem_heap_lo full_heap" "mem_brk full_heap < 2 ^ 64 - 1"
    "GET full_heap (HDRP 4208) = Some 25"
    by (simp_all add: full_heap_def run)
  from realloc_special_cases [of 4208 full_heap 1000 full_heap] m f
  show ?thesis by simp
qed

section \<open>\<^verbatim>\<open>realloc\<close>: the copy\<close>










section \<open>\<^verbatim>\<open>find_fit\<close>: first fit\<close>

lemma find_bucket_narrowed: "find_bucket (scast (ucast asize :: 32 word)) = find_bucket asize"
proof -
  have "(ucast (scast (ucast asize :: 32 word) :: 64 word) :: 32 word) = ucast asize"
    by (rule bit_word_eqI) (auto simp: bit_simps)
  then show ?thesis by (simp add: find_bucket_def int_of_size_def)
qed

lemma free_chain_nonzero: "free_chain s h xs \<Longrightarrow> 0 \<notin> set xs"
  by (induction xs arbitrary: h) (auto split: option.splits)

lemma first_fit_Nil: "first_fit s asize [] = 0"
  by (simp add: first_fit_def)

lemma first_fit_Cons:
  "first_fit s asize (x # xs) = (if asize \<le> block_size s x then x else first_fit s asize xs)"
  by (simp add: first_fit_def)

lemma first_fit_append:
  "0 \<notin> set xs \<Longrightarrow> first_fit s asize (xs @ ys) =
     (if first_fit s asize xs \<noteq> 0 then first_fit s asize xs else first_fit s asize ys)"
  by (induction xs) (auto simp: first_fit_Cons first_fit_Nil)

lemma find_fit_list_chain:
  "free_chain s h xs \<Longrightarrow> find_fit_list s asize h = Some (first_fit s asize xs)"
proof (induction xs arbitrary: h)
  case Nil
  then show ?case by (subst find_fit_list.simps) (simp add: first_fit_def)
next
  case (Cons x xs)
  from Cons.prems obtain sz n where h: "h = x" "x \<noteq> 0" and sz: "GET_SIZE s (HDRP x) = Some sz"
    and n: "NEXT_FREE s x = Some n" and c: "free_chain s n xs"
    by (auto split: option.splits)
  from Cons.IH [OF c] have "find_fit_list s asize n = Some (first_fit s asize xs)" .
  with h sz n show ?case
    by (subst find_fit_list.simps) (simp add: first_fit_Cons block_size_def)
qed

lemma find_fit_buckets_chain:
  assumes "\<forall>i \<in> set is. \<exists>h. get_seg_free s i = Some h \<and> free_chain s h (L i)"
  shows "find_fit_buckets s asize is = Some (first_fit s asize (concat (map L is)))"
  using assms
proof (induction "is")
  case Nil
  show ?case by (simp add: first_fit_def)
next
  case (Cons i "is")
  from Cons.prems obtain h where h: "get_seg_free s i = Some h" and c: "free_chain s h (L i)"
    by auto
  from Cons have IH: "find_fit_buckets s asize is = Some (first_fit s asize (concat (map L is)))"
    by simp
  from c have nz: "0 \<notin> set (L i)" by (rule free_chain_nonzero)
  from find_fit_list_chain [OF c] have "find_fit_list s asize h = Some (first_fit s asize (L i))" .
  with h IH nz show ?case by (simp add: first_fit_append)
qed


text \<open>
  C8. Let the buckets from \<^verbatim>\<open>find_bucket(asize)\<close> up to the last each hold a list
  that ends in \<^verbatim>\<open>NULL\<close>, \<open>L i\<close> for bucket \<open>i\<close>. Then \<^verbatim>\<open>find_fit\<close> returns the first
  block, in the order of the buckets and within a bucket from the head of the
  list on, whose header size is at least \<open>asize\<close>; it returns \<^verbatim>\<open>NULL\<close> when no
  block of these buckets is large enough.
\<close>

theorem find_fit_first_fit:
  assumes "lists_of s L [find_bucket asize ..< BUCKETS]"
  shows "find_fit asize s
       = Some (first_fit s asize (concat (map L [find_bucket asize ..< BUCKETS])))"
proof -
  from assms have "\<forall>i \<in> set [find_bucket asize ..< BUCKETS].
      \<exists>h. get_seg_free s i = Some h \<and> free_chain s h (L i)"
    by (auto simp: lists_of_def list_all_iff split: option.splits)
  then show ?thesis
    by (simp add: find_fit_def find_bucket_narrowed find_fit_buckets_chain)
qed

theorem find_fit_first_fit_witness:
  "lists_of heap_w (\<lambda>i. if i = 1 then [4208, 4272] else []) [find_bucket 48 ..< BUCKETS]
   \<and> block_size heap_w 4208 = 40 \<and> block_size heap_w 4272 = 56
   \<and> find_fit 48 heap_w = Some 4272"
proof -
  have b: "find_bucket 48 = 1"
    by (simp add: find_bucket_chain int_of_size_def)
  have l: "lists_of heap_w (\<lambda>i. if i = 1 then [4208, 4272] else []) [1 ..< BUCKETS]"
    by (simp add: lists_of_def heap_w_def run)
  have sz: "block_size heap_w 4208 = 40" "block_size heap_w 4272 = 56"
    by (simp_all add: block_size_def heap_w_def run)
  from find_fit_first_fit [of heap_w _ 48] l b
  have "find_fit 48 heap_w = Some 4272"
    by (simp add: BUCKETS_def upt_conv_Cons first_fit_Cons first_fit_Nil sz)
  then show ?thesis using l b sz by simp
qed

section \<open>Alignment\<close>


section \<open>\<^verbatim>\<open>place\<close>: split or whole block\<close>

lemma uint_ucast_32_64: "uint (ucast (w :: 32 word) :: 64 word) = uint w"
proof -
  have "uint w < 2 ^ 64" using uint_lt2p [of w] by simp
  then show ?thesis by (simp add: unsigned_ucast_eq take_bit_int_eq_self)
qed

lemma size_lt_32: "asize \<le> (ucast (csz :: 32 word) :: 64 word) \<Longrightarrow> uint asize < 2 ^ 32"
  using uint_lt2p [of csz] by (simp add: word_le_def uint_ucast_32_64)

lemma ucast_down_up: "uint (a :: 64 word) < 2 ^ 32 \<Longrightarrow> uint (ucast a :: 32 word) = uint a"
  by (simp add: unsigned_ucast_eq take_bit_int_eq_self)

lemma bit_7_int: "bit (7 :: int) n \<longleftrightarrow> n < 3"
proof -
  have e: "(7 :: int) = mask 3" by (simp add: mask_eq_exp_minus_1)
  show ?thesis unfolding e bit_mask_iff by simp
qed

lemma low_bits_clear:
  assumes "(a :: 'a::len word) AND 7 = 0" "n < 3"
  shows "\<not> bit a n"
proof
  assume "bit a n"
  with assms(2) have "bit (a AND 7) n" by (simp add: bit_and_iff bit_7_int bit_imp_le_length)
  with assms(1) show False by simp
qed

lemma pack_alloc_size:
  assumes "a AND 7 = 0"
  shows "(ucast (PACK a 1) :: 32 word) AND NOT 7 = ucast (a :: 64 word)"
    and "(ucast (PACK a 0) :: 32 word) AND NOT 7 = ucast a"
proof -
  note b = low_bits_clear [OF assms]
  show "(ucast (PACK a 1) :: 32 word) AND NOT 7 = ucast a"
    by (rule bit_word_eqI) (auto simp: PACK_def bit_simps bit_7_int dest: b)
  show "(ucast (PACK a 0) :: 32 word) AND NOT 7 = ucast a"
    by (rule bit_word_eqI) (auto simp: PACK_def bit_simps bit_7_int dest: b)
qed

lemma pack_alloc_bit:
  assumes "a AND 7 = 0"
  shows "(ucast (PACK a 1) :: 32 word) AND 1 = 1"
    and "(ucast (PACK a 0) :: 32 word) AND 1 = 0"
proof -
  have b: "\<not> bit a 0" by (rule low_bits_clear [OF assms]) simp
  show "(ucast (PACK a 1) :: 32 word) AND 1 = 1"
    by (rule bit_word_eqI) (auto simp: PACK_def bit_simps)
  show "(ucast (PACK a 0) :: 32 word) AND 1 = 0"
    using b by (intro bit_word_eqI) (auto simp: PACK_def bit_simps intro!: gr0I)
qed


lemma heads_apart_iff:
  "heads_apart s bp C \<longleftrightarrow>
     (\<forall>i<12. in_heap s (seg_free s + 8 * int i) 8
        \<and> (rd_ptr s (seg_free s + 8 * int i) = bp \<or> apart s bp C (rd_ptr s (seg_free s + 8 * int i))))"
  by (auto simp: heads_apart_def list_all_iff BUCKETS_def get_seg_free_def load_ptr_def
      split: option.splits if_splits)

lemma apart_same_arena: "same_arena s s' \<Longrightarrow> apart s' bp C x = apart s bp C x"
  by (simp add: apart_def same_arena_in_heap) (simp add: same_arena_def)

lemma GET_SIZE_D:
  assumes "GET_SIZE s p = Some csz"
  shows "in_heap s p 4" "csz = rd32 s p AND NOT 7" "csz AND 7 = 0"
proof -
  from assms show a: "in_heap s p 4" and b: "csz = rd32 s p AND NOT 7"
    by (auto simp: GET_SIZE_def GET_def load32_def split: if_splits)
  show "csz AND 7 = 0"
    unfolding b by (rule bit_word_eqI) (auto simp: bit_simps bit_7_int)
qed


lemma apart_wr [simp]:
  "apart (wr_ptr a p s) bp C x = apart s bp C x" "apart (wr32 a v s) bp C x = apart s bp C x"
  by (simp_all add: apart_def)

lemma heads_apart_wr_slot:
  assumes "heads_apart s bp C" "b < 12" "p = bp \<or> apart s bp C p" "0 \<le> p" "p < 2 ^ 64"
  shows "heads_apart (wr_ptr (seg_free s + 8 * int b) p s) bp C"
  unfolding heads_apart_iff
proof (intro allI impI)
  fix i :: nat assume i: "i < 12"
  from assms(1) i have h: "in_heap s (seg_free s + 8 * int i) 8"
    "rd_ptr s (seg_free s + 8 * int i) = bp \<or> apart s bp C (rd_ptr s (seg_free s + 8 * int i))"
    by (simp_all add: heads_apart_iff)
  show "in_heap (wr_ptr (seg_free s + 8 * int b) p s) (seg_free (wr_ptr (seg_free s + 8 * int b) p s) + 8 * int i) 8
      \<and> (rd_ptr (wr_ptr (seg_free s + 8 * int b) p s) (seg_free (wr_ptr (seg_free s + 8 * int b) p s) + 8 * int i) = bp
         \<or> apart (wr_ptr (seg_free s + 8 * int b) p s) bp C
              (rd_ptr (wr_ptr (seg_free s + 8 * int b) p s) (seg_free (wr_ptr (seg_free s + 8 * int b) p s) + 8 * int i)))"
  proof (cases "i = b")
    case True
    with h assms(3-5) show ?thesis by (simp add: rd_ptr_wr_ptr_same)
  next
    case False
    then have "seg_free s + 8 * int i + 8 \<le> seg_free s + 8 * int b
             \<or> seg_free s + 8 * int b + 8 \<le> seg_free s + 8 * int i"
      by linarith
    with h show ?thesis by (simp add: rd_ptr_wr_ptr_other)
  qed
qed

lemma heads_apart_wr_out:
  assumes "heads_apart s bp C" "a + 8 \<le> seg_free s \<or> seg_free s + 96 \<le> a"
  shows "heads_apart (wr_ptr a p s) bp C"
  unfolding heads_apart_iff
proof (intro allI impI)
  fix i :: nat assume i: "i < 12"
  from assms(1) i have h: "in_heap s (seg_free s + 8 * int i) 8"
    "rd_ptr s (seg_free s + 8 * int i) = bp \<or> apart s bp C (rd_ptr s (seg_free s + 8 * int i))"
    by (simp_all add: heads_apart_iff)
  from i assms(2) have "seg_free s + 8 * int i + 8 \<le> a \<or> a + 8 \<le> seg_free s + 8 * int i"
    by linarith
  with h show "in_heap (wr_ptr a p s) (seg_free (wr_ptr a p s) + 8 * int i) 8
      \<and> (rd_ptr (wr_ptr a p s) (seg_free (wr_ptr a p s) + 8 * int i) = bp
         \<or> apart (wr_ptr a p s) bp C (rd_ptr (wr_ptr a p s) (seg_free (wr_ptr a p s) + 8 * int i)))"
    by (simp add: rd_ptr_wr_ptr_other)
qed

lemma heads_apart_wr32_out:
  assumes "heads_apart s bp C" "a + 4 \<le> seg_free s \<or> seg_free s + 96 \<le> a"
  shows "heads_apart (wr32 a v s) bp C"
  unfolding heads_apart_iff
proof (intro allI impI)
  fix i :: nat assume i: "i < 12"
  from assms(1) i have h: "in_heap s (seg_free s + 8 * int i) 8"
    "rd_ptr s (seg_free s + 8 * int i) = bp \<or> apart s bp C (rd_ptr s (seg_free s + 8 * int i))"
    by (simp_all add: heads_apart_iff)
  from i assms(2) have "seg_free s + 8 * int i + 8 \<le> a \<or> a + 4 \<le> seg_free s + 8 * int i"
    by linarith
  with h show "in_heap (wr32 a v s) (seg_free (wr32 a v s) + 8 * int i) 8
      \<and> (rd_ptr (wr32 a v s) (seg_free (wr32 a v s) + 8 * int i) = bp
         \<or> apart (wr32 a v s) bp C (rd_ptr (wr32 a v s) (seg_free (wr32 a v s) + 8 * int i)))"
    by (simp add: rd_ptr_wr32_other)
qed


lemma apart_cell:
  assumes "apart s bp C x" "x \<noteq> 0"
  shows "in_heap s x 8" "in_heap s (x + 8) 8"
    "x + 8 \<le> seg_free s \<or> seg_free s + 96 \<le> x"
    "x + 8 + 8 \<le> seg_free s \<or> seg_free s + 96 \<le> x + 8"
    "x + 16 \<le> bp - 4 \<or> bp + C - 4 \<le> x"
  using assms by (auto simp: apart_def in_heap_def)

lemma remove_free_ok:
  assumes hdr: "GET_SIZE s (HDRP bp) = Some csz"
    and C: "24 \<le> uint csz"
    and blk: "mem_heap_lo s \<le> bp - 4" "bp + uint csz - 4 \<le> mem_brk s"
    and heads: "heads_apart s bp (uint csz)"
    and links: "apart s bp (uint csz) (rd_ptr s bp)" "apart s bp (uint csz) (rd_ptr s (bp + 8))"
  shows "\<exists>s1. remove_free bp s = Some s1 \<and> same_arena s s1 \<and> heads_apart s1 bp (uint csz)"
proof -
  define b where "b = find_bucket (ucast csz)"
  define prev where "prev = rd_ptr s bp"
  define nxt where "nxt = rd_ptr s (bp + 8)"
  have b: "b < 12" using find_bucket_less [of "ucast csz"] by (simp add: b_def BUCKETS_def)
  from heads b have slot: "in_heap s (seg_free s + 8 * int b) 8" by (simp add: heads_apart_iff)
  from C blk have rd: "PREV_FREE s bp = Some prev" "NEXT_FREE s bp = Some nxt"
    by (simp_all add: PREV_FREE_def NEXT_FREE_def load_ptr_def in_heap_def prev_def nxt_def DSIZE_def)
  note ap = links [folded prev_def nxt_def]
  have rng: "0 \<le> nxt" "nxt < 2 ^ 64" using rd_ptr_range [of s "bp + 8"] by (simp_all add: nxt_def)
  consider (sole) "prev = 0" "nxt = 0" | (head) "prev = 0" "nxt \<noteq> 0"
    | (last) "prev \<noteq> 0" "nxt = 0" | (mid) "prev \<noteq> 0" "nxt \<noteq> 0" by blast
  then show ?thesis
  proof cases
    case sole
    with hdr rd slot have "remove_free bp s = Some (wr_ptr (seg_free s + 8 * int b) 0 s)"
      by (simp add: remove_free_def b_def set_seg_free_def store_ptr_def)
    moreover have "heads_apart (wr_ptr (seg_free s + 8 * int b) 0 s) bp (uint csz)"
      using heads b by (rule heads_apart_wr_slot) (simp_all add: apart_def)
    ultimately show ?thesis by (simp add: same_arena_def)
  next
    case head
    note c = apart_cell [OF ap(2) head(2)]
    from C c(5) have "bp + 8 + 8 \<le> nxt \<or> nxt + 8 \<le> bp + 8" by linarith
    then have n': "rd_ptr (wr_ptr nxt 0 s) (bp + 8) = nxt"
      by (simp add: rd_ptr_wr_ptr_other nxt_def)
    from C blk have ih: "in_heap s (bp + 8) 8" by (simp add: in_heap_def)
    from head hdr rd slot c(1) n' ih
    have "remove_free bp s = Some (wr_ptr (seg_free s + 8 * int b) nxt (wr_ptr nxt 0 s))"
      by (simp add: remove_free_def b_def set_seg_free_def store_ptr_def set_PREV_FREE_def
          NEXT_FREE_def load_ptr_def DSIZE_def)
    moreover have "heads_apart (wr_ptr nxt 0 s) bp (uint csz)"
      using heads c(3) by (rule heads_apart_wr_out)
    then have "heads_apart (wr_ptr (seg_free (wr_ptr nxt 0 s) + 8 * int b) nxt (wr_ptr nxt 0 s)) bp (uint csz)"
      using b by (rule heads_apart_wr_slot) (use ap rng in simp_all)
    ultimately show ?thesis by (simp add: same_arena_def)
  next
    case last
    note c = apart_cell [OF ap(1) last(1)]
    from last hdr rd c(2)
    have "remove_free bp s = Some (wr_ptr (prev + 8) 0 s)"
      by (simp add: remove_free_def set_NEXT_FREE_def store_ptr_def DSIZE_def)
    moreover have "heads_apart (wr_ptr (prev + 8) 0 s) bp (uint csz)"
      using heads c(4) by (rule heads_apart_wr_out)
    ultimately show ?thesis by (simp add: same_arena_def)
  next
    case mid
    note c = apart_cell [OF ap(1) mid(1)] and d = apart_cell [OF ap(2) mid(2)]
    from mid hdr rd c(2) d(1)
    have "remove_free bp s = Some (wr_ptr nxt prev (wr_ptr (prev + 8) nxt s))"
      by (simp add: remove_free_def set_NEXT_FREE_def set_PREV_FREE_def store_ptr_def DSIZE_def)
    moreover have "heads_apart (wr_ptr (prev + 8) nxt s) bp (uint csz)"
      using heads c(4) by (rule heads_apart_wr_out)
    then have "heads_apart (wr_ptr nxt prev (wr_ptr (prev + 8) nxt s)) bp (uint csz)"
    proof (rule heads_apart_wr_out)
      show "nxt + 8 \<le> seg_free (wr_ptr (prev + 8) nxt s) \<or> seg_free (wr_ptr (prev + 8) nxt s) + 96 \<le> nxt"
        using d(3) by simp
    qed
    ultimately show ?thesis by (simp add: same_arena_def)
  qed
qed


lemma insert_free_ok:
  assumes hdr: "GET_SIZE t (HDRP nb) = Some rsz"
    and C: "24 \<le> C"
    and blk: "mem_heap_lo t \<le> bp - 4" "bp + C - 4 \<le> mem_brk t"
    and nb: "bp \<le> nb" "nb + 16 \<le> bp + C - 4" "0 \<le> nb" "nb < 2 ^ 64"
    and tbl: "seg_free t + 96 \<le> bp - 4 \<or> bp + C - 4 \<le> seg_free t"
    and heads: "heads_apart t bp C"
  shows "\<exists>t'. insert_free nb t = Some t' \<and> same_arena t t'
       \<and> get_seg_free t' (find_bucket (ucast rsz)) = Some nb
       \<and> (\<forall>a. bp - 4 \<le> a \<and> a + 4 \<le> bp + C - 4 \<and> (a + 4 \<le> bp \<or> bp + 8 \<le> a)
              \<and> (a + 4 \<le> nb \<or> nb + 16 \<le> a) \<longrightarrow> rd32 t' a = rd32 t a)"
proof -
  define j where "j = find_bucket (ucast rsz)"
  define T where "T = seg_free t + 8 * int j"
  define h where "h = rd_ptr t T"
  have j: "j < 12" using find_bucket_less [of "ucast rsz"] by (simp add: j_def BUCKETS_def)
  from heads j have slot: "in_heap t T 8" and hh: "h = bp \<or> apart t bp C h"
    by (simp_all add: heads_apart_iff T_def h_def)
  from j tbl have Tout: "T + 8 \<le> bp - 4 \<or> bp + C - 4 \<le> T" by (simp add: T_def) linarith
  from j have Tin: "seg_free t \<le> T" "T + 8 \<le> seg_free t + 96" by (simp_all add: T_def)
  from blk nb have lk: "in_heap t nb 8" "in_heap t (nb + 8) 8" by (simp_all add: in_heap_def)
  from slot have g: "get_seg_free t j = Some h"
    by (simp add: get_seg_free_def load_ptr_def T_def h_def)
  show ?thesis
  proof (cases "h = 0")
    case True
    let ?t' = "wr_ptr T nb (wr_ptr (nb + 8) 0 (wr_ptr nb 0 t))"
    from True hdr g lk slot have "insert_free nb t = Some ?t'"
      by (simp add: insert_free_def j_def [symmetric] set_PREV_FREE_def set_NEXT_FREE_def
          set_seg_free_def store_ptr_def DSIZE_def T_def)
    moreover have "get_seg_free ?t' j = Some nb"
      using slot nb by (simp add: get_seg_free_def load_ptr_def T_def [symmetric] rd_ptr_wr_ptr_same)
    moreover have "rd32 ?t' a = rd32 t a"
      if "bp - 4 \<le> a \<and> a + 4 \<le> bp + C - 4 \<and> (a + 4 \<le> bp \<or> bp + 8 \<le> a)
              \<and> (a + 4 \<le> nb \<or> nb + 16 \<le> a)" for a
    proof -
      from that Tout have "a + 4 \<le> T \<or> T + 8 \<le> a" "a + 4 \<le> nb + 8 \<or> nb + 8 + 8 \<le> a"
        "a + 4 \<le> nb \<or> nb + 8 \<le> a" by linarith+
      then show ?thesis by (simp add: rd32_wr_ptr_other)
    qed
    ultimately show ?thesis by (auto simp: same_arena_def j_def)
  next
    case False
    with hh blk C have hin: "in_heap t h 8" and hT: "h + 8 \<le> T \<or> T + 8 \<le> h"
      and hout: "h = bp \<or> h + 16 \<le> bp - 4 \<or> bp + C - 4 \<le> h"
      using Tout Tin by (auto simp: apart_def in_heap_def)
    let ?t1 = "wr_ptr h nb t"
    let ?t' = "wr_ptr T nb (wr_ptr nb 0 (wr_ptr (nb + 8) h ?t1))"
    from hT have h': "rd_ptr ?t1 T = h" by (auto simp: rd_ptr_wr_ptr_other h_def)
    from False hdr g lk slot hin h' have "insert_free nb t = Some ?t'"
      by (simp add: insert_free_def j_def [symmetric] set_PREV_FREE_def set_NEXT_FREE_def
          set_seg_free_def get_seg_free_def load_ptr_def store_ptr_def DSIZE_def T_def)
    moreover have "get_seg_free ?t' j = Some nb"
      using slot nb by (simp add: get_seg_free_def load_ptr_def T_def [symmetric] rd_ptr_wr_ptr_same)
    moreover have "rd32 ?t' a = rd32 t a"
      if "bp - 4 \<le> a \<and> a + 4 \<le> bp + C - 4 \<and> (a + 4 \<le> bp \<or> bp + 8 \<le> a)
              \<and> (a + 4 \<le> nb \<or> nb + 16 \<le> a)" for a
    proof -
      from that Tout hout have "a + 4 \<le> T \<or> T + 8 \<le> a" "a + 4 \<le> nb + 8 \<or> nb + 8 + 8 \<le> a"
        "a + 4 \<le> nb \<or> nb + 8 \<le> a" "a + 4 \<le> h \<or> h + 8 \<le> a" by linarith+
      then show ?thesis by (simp add: rd32_wr_ptr_other)
    qed
    ultimately show ?thesis by (auto simp: same_arena_def j_def)
  qed
qed


lemma and7_uint: "(x :: 'a::len word) AND 7 = 0 \<longleftrightarrow> 8 dvd uint x"
proof -
  have "(7 :: 'a word) = mask 3" by (simp add: mask_eq_exp_minus_1)
  then show ?thesis using and_mask_dvd [of 3 x] by simp
qed

lemma split_words:
  fixes asize :: "64 word" and csz :: "32 word"
  assumes a: "asize \<le> ucast csz" "asize AND 7 = 0" and c: "csz AND 7 = 0"
  shows "uint asize \<le> uint csz"
    and "uint (ucast asize :: 32 word) = uint asize"
    and "uint (ucast csz - asize) = uint csz - uint asize"
    and "uint (csz - ucast asize) = uint csz - uint asize"
    and "(ucast (PACK (ucast csz - asize) 0) :: 32 word) AND NOT 7 = csz - ucast asize"
    and "(ucast (PACK (ucast csz - asize) 0) :: 32 word) AND 1 = 0"
    and "(ucast (PACK (ucast csz) 1) :: 32 word) AND NOT 7 = csz"
    and "(ucast (PACK (ucast csz) 1) :: 32 word) AND 1 = 1"
    and "(24 \<le> ucast csz - asize) = (24 \<le> uint csz - uint asize)"
    and "(ucast (csz - ucast asize) :: 64 word) = ucast csz - asize"
proof -
  show le: "uint asize \<le> uint csz" using a(1) by (simp add: word_le_def uint_ucast_32_64)
  show dn: "uint (ucast asize :: 32 word) = uint asize"
    by (rule ucast_down_up [OF size_lt_32 [OF a(1)]])
  show d64: "uint (ucast csz - asize) = uint csz - uint asize"
    using le by (simp add: uint_sub_lem [THEN iffD1] uint_ucast_32_64)
  show d32: "uint (csz - ucast asize) = uint csz - uint asize"
    using le by (simp add: uint_sub_lem [THEN iffD1] dn)
  have lt: "uint (ucast csz - asize :: 64 word) < 2 ^ 32"
  proof -
    have "0 \<le> uint asize" "uint csz < 2 ^ 32" using uint_lt2p [of csz] by simp_all
    then have "uint csz - uint asize < 2 ^ 32" by linarith
    then show ?thesis by (simp only: d64)
  qed
  have eq: "(ucast (ucast csz - asize :: 64 word) :: 32 word) = csz - ucast asize"
    by (rule word_uint_eqI) (simp add: ucast_down_up [OF lt] d64 d32)
  have c64: "(ucast csz :: 64 word) AND 7 = 0" using c by (simp add: and7_uint uint_ucast_32_64)
  have r7: "(ucast csz - asize :: 64 word) AND 7 = 0"
    using c a(2) by (simp add: and7_uint d64)
  from pack_alloc_size(2) [OF r7] show "(ucast (PACK (ucast csz - asize) 0) :: 32 word) AND NOT 7 = csz - ucast asize"
    by (simp add: eq)
  from pack_alloc_bit(2) [OF r7] show "(ucast (PACK (ucast csz - asize) 0) :: 32 word) AND 1 = 0" .
  have "uint (ucast csz :: 64 word) < 2 ^ 32" using uint_lt2p [of csz] by (simp add: uint_ucast_32_64)
  then have "(ucast (ucast csz :: 64 word) :: 32 word) = csz"
    by (intro word_uint_eqI) (simp only: ucast_down_up uint_ucast_32_64)
  with pack_alloc_size(1) [OF c64] show "(ucast (PACK (ucast csz) 1) :: 32 word) AND NOT 7 = csz"
    by simp
  from pack_alloc_bit(1) [OF c64] show "(ucast (PACK (ucast csz) 1) :: 32 word) AND 1 = 1" .
  show "(24 \<le> ucast csz - asize) = (24 \<le> uint csz - uint asize)"
    by (simp add: word_le_def d64)
  show "(ucast (csz - ucast asize) :: 64 word) = ucast csz - asize"
    by (rule word_uint_eqI) (simp add: uint_ucast_32_64 d64 d32)
qed


lemma heads_apart_tag:
  assumes "heads_apart s bp C" "seg_free s + 96 \<le> bp - 4 \<or> bp + C - 4 \<le> seg_free s"
    "bp - 4 \<le> a" "a + 4 \<le> bp + C - 4"
  shows "heads_apart (wr32 a v s) bp C"
  by (rule heads_apart_wr32_out) (use assms in auto)

lemma in_heap_wr32 [simp]: "in_heap (wr32 a v s) b n = in_heap s b n"
  by (simp add: in_heap_def)

lemma PUT_Some: "in_heap s a 4 \<Longrightarrow> PUT a v s = Some (wr32 a (ucast v) s)"
  by (simp add: PUT_def store32_def)

lemma GET_Some: "in_heap s a 4 \<Longrightarrow> GET s a = Some (rd32 s a)"
  by (simp add: GET_def load32_def)

text \<open>
  C7. Let \<open>bp\<close> be a block of \<open>csz\<close> bytes in the arena whose bucket lists are in
  order around it (its own two links and the heads of all buckets are \<^verbatim>\<open>NULL\<close> or
  point to blocks elsewhere in the arena, outside the bucket table), and let
  \<open>asize\<close> be an adjusted size: a multiple of 8, at least 24 and at most \<open>csz\<close>.
  Then \<^verbatim>\<open>place\<close> returns. If \<open>csz - asize\<close> is at least 24, the block is split: the
  front part has header and footer of size \<open>asize\<close> with the allocation bit set,
  the next block starts \<open>asize\<close> bytes further, has header and footer of size
  \<open>csz - asize\<close> with the allocation bit clear, and is the head of the bucket of
  that size. Otherwise the whole block is allocated: header and footer hold
  the original size \<open>csz\<close>, not \<open>asize\<close>, with the allocation bit set.
\<close>

theorem place_split_or_whole:
  assumes hdr: "GET_SIZE s (HDRP bp) = Some csz"
    and asz: "24 \<le> asize" "asize \<le> ucast csz" "asize AND 7 = 0"
    and arena: "0 \<le> mem_heap_lo s" "mem_brk s \<le> 2 ^ 64"
    and blk: "mem_heap_lo s \<le> bp - 4" "bp + uint csz - 4 \<le> mem_brk s"
    and tbl: "seg_free s + 96 \<le> bp - 4 \<or> bp + uint csz - 4 \<le> seg_free s"
    and heads: "heads_apart s bp (uint csz)"
    and links: "PREV_FREE s bp = Some prv" "NEXT_FREE s bp = Some nxt"
      "apart s bp (uint csz) prv" "apart s bp (uint csz) nxt"
  shows "\<exists>s'. place bp asize s = Some s' \<and> same_arena s s' \<and>
     (if 24 \<le> ucast csz - asize
      then GET_SIZE s' (HDRP bp) = Some (ucast asize) \<and> GET_ALLOC s' (HDRP bp) = Some 1
         \<and> FTRP s' bp = Some (bp + uint asize - 8)
         \<and> GET s' (bp + uint asize - 8) = GET s' (HDRP bp)
         \<and> NEXT_BLKP s' bp = Some (bp + uint asize)
         \<and> GET_SIZE s' (HDRP (bp + uint asize)) = Some (csz - ucast asize)
         \<and> GET_ALLOC s' (HDRP (bp + uint asize)) = Some 0
         \<and> FTRP s' (bp + uint asize) = Some (bp + uint csz - 8)
         \<and> GET s' (bp + uint csz - 8) = GET s' (HDRP (bp + uint asize))
         \<and> get_seg_free s' (find_bucket (ucast csz - asize)) = Some (bp + uint asize)
      else GET_SIZE s' (HDRP bp) = Some csz \<and> GET_ALLOC s' (HDRP bp) = Some 1
         \<and> FTRP s' bp = Some (bp + uint csz - 8)
         \<and> GET s' (bp + uint csz - 8) = GET s' (HDRP bp))"
proof -
  define A where "A = uint asize"
  define C where "C = uint csz"
  note W = split_words [OF asz(2,3) GET_SIZE_D(3) [OF hdr], folded A_def C_def]
  have A24: "24 \<le> A" using asz(1) by (simp add: word_le_def A_def)
  with W(1) have C24: "24 \<le> C" by simp
  from links(1,2) have lk: "rd_ptr s bp = prv" "rd_ptr s (bp + 8) = nxt"
    by (auto simp: PREV_FREE_def NEXT_FREE_def load_ptr_def DSIZE_def split: if_splits)
  from remove_free_ok [OF hdr C24 [unfolded C_def] blk heads] links(3,4) lk
  obtain s1 where r: "remove_free bp s = Some s1" and sa: "same_arena s s1"
    and h1: "heads_apart s1 bp C" by (auto simp: C_def)
  from sa have f1: "mem_heap_lo s1 = mem_heap_lo s" "mem_brk s1 = mem_brk s"
    "seg_free s1 = seg_free s" by (simp_all add: same_arena_def)
  have inb: "in_heap s1 a 4" if "bp - 4 \<le> a" "a + 4 \<le> bp + C - 4" for a
    using that blk by (simp add: in_heap_def f1 C_def)
  have tbl1: "seg_free s1 + 96 \<le> bp - 4 \<or> bp + C - 4 \<le> seg_free s1"
    using tbl by (simp add: f1 C_def)
  show ?thesis
  proof (cases "24 \<le> C - A")
    case True
    define ta :: "32 word" where "ta = ucast (PACK asize 1)"
    define tr :: "32 word" where "tr = ucast (PACK (ucast csz - asize) 0)"
    define nb where "nb = bp + A"
    define s2 where "s2 = wr32 (bp - 4) ta s1"
    define s3 where "s3 = wr32 (bp + A - 8) ta s2"
    define s4 where "s4 = wr32 (nb - 4) tr s3"
    define s5 where "s5 = wr32 (bp + C - 8) tr s4"
    have ta: "ta AND NOT 7 = ucast asize" "ta AND 1 = 1"
      using pack_alloc_size(1) [OF asz(3)] pack_alloc_bit(1) [OF asz(3)] by (simp_all add: ta_def)
    note ta = ta ta [simplified]
    have tr: "tr AND NOT 7 = csz - ucast asize" "tr AND 1 = 0"
      using W(5,6) by (simp_all add: tr_def)
    note tr = tr tr [simplified]
    have p2: "PUT (HDRP bp) (PACK asize 1) s1 = Some s2"
      using inb [of "bp - 4"] C24 by (simp add: PUT_Some HDRP_def WSIZE_def s2_def ta_def)
    have g2: "rd32 s2 (bp - 4) = ta" by (simp add: s2_def)
    have in2: "in_heap s2 a n = in_heap s1 a n" for a n by (simp add: s2_def)
    have f2: "FTRP s2 bp = Some (bp + A - 8)"
      using inb [of "bp - 4"] C24
      by (simp add: FTRP_def GET_SIZE_def GET_Some HDRP_def WSIZE_def DSIZE_def in2 g2 ta W(2))
    have p3: "PUT (bp + A - 8) (PACK asize 1) s2 = Some s3"
      using inb [of "bp + A - 8"] A24 W(1) by (simp add: PUT_Some in2 s3_def ta_def)
    have in3: "in_heap s3 a n = in_heap s1 a n" for a n by (simp add: s3_def in2)
    have g3: "rd32 s3 (bp - 4) = ta" "rd32 s3 (bp + A - 8) = ta"
      using A24 by (simp_all add: s3_def rd32_wr32_other g2)
    have n3: "NEXT_BLKP s3 bp = Some nb"
      using inb [of "bp - 4"] C24
      by (simp add: NEXT_BLKP_def GET_SIZE_def GET_Some WSIZE_def in3 g3 ta W(2) nb_def)
    have p4: "PUT (HDRP nb) (PACK (ucast csz - asize) 0) s3 = Some s4"
      using inb [of "nb - 4"] A24 True
      by (simp add: PUT_Some HDRP_def WSIZE_def in3 s4_def tr_def nb_def)
    have in4: "in_heap s4 a n = in_heap s1 a n" for a n by (simp add: s4_def in3)
    have g4: "rd32 s4 (bp - 4) = ta" "rd32 s4 (bp + A - 8) = ta" "rd32 s4 (nb - 4) = tr"
      using A24 by (simp_all add: s4_def rd32_wr32_other g3 nb_def)
    note g4 = g4 g4 [unfolded nb_def]
    have f4: "FTRP s4 nb = Some (bp + C - 8)"
      using inb [of "nb - 4"] A24 True
      by (simp add: FTRP_def GET_SIZE_def GET_Some HDRP_def WSIZE_def DSIZE_def in4 g4 tr W(4) nb_def)
    have p5: "PUT (bp + C - 8) (PACK (ucast csz - asize) 0) s4 = Some s5"
      using inb [of "bp + C - 8"] C24 by (simp add: PUT_Some in4 s5_def tr_def)
    have in5: "in_heap s5 a n = in_heap s1 a n" for a n by (simp add: s5_def in4)
    have g5: "rd32 s5 (bp - 4) = ta" "rd32 s5 (bp + A - 8) = ta" "rd32 s5 (nb - 4) = tr"
      "rd32 s5 (bp + C - 8) = tr"
      using A24 True by (simp_all add: s5_def rd32_wr32_other g4 nb_def)
    note g5 = g5 g5 [unfolded nb_def]
    have f5: "mem_heap_lo s5 = mem_heap_lo s" "mem_brk s5 = mem_brk s" "seg_free s5 = seg_free s"
      by (simp_all add: s5_def s4_def s3_def s2_def f1)
    have h5: "heads_apart s5 bp C"
      unfolding s5_def s4_def s3_def s2_def nb_def
      by (intro heads_apart_tag h1; use A24 True W(1) C24 tbl1 in simp)
    have hn: "GET_SIZE s5 (HDRP nb) = Some (csz - ucast asize)"
      using inb [of "nb - 4"] A24 True
      by (simp add: GET_SIZE_def GET_Some HDRP_def WSIZE_def in5 g5 tr nb_def)
    have nbr: "bp \<le> nb" "nb + 16 \<le> bp + C - 4" "0 \<le> nb" "nb < 2 ^ 64"
      using A24 True blk arena by (simp_all add: nb_def C_def)
    from insert_free_ok [OF hn C24 _ _ nbr _ h5] blk tbl
    obtain t' where i5: "insert_free nb s5 = Some t'" and sa5: "same_arena s5 t'"
      and hd: "get_seg_free t' (find_bucket (ucast (csz - ucast asize))) = Some nb"
      and keep: "\<And>a. bp - 4 \<le> a \<Longrightarrow> a + 4 \<le> bp + C - 4 \<Longrightarrow> a + 4 \<le> bp \<or> bp + 8 \<le> a
          \<Longrightarrow> a + 4 \<le> nb \<or> nb + 16 \<le> a \<Longrightarrow> rd32 t' a = rd32 s5 a"
      by (auto simp: f5 C_def)
    have int': "in_heap t' a n = in_heap s1 a n" for a n
      using same_arena_in_heap [OF sa5] by (simp add: in5)
    have gt: "rd32 t' (bp - 4) = ta" "rd32 t' (bp + A - 8) = ta" "rd32 t' (nb - 4) = tr"
      "rd32 t' (bp + C - 8) = tr"
      using A24 True by (simp_all add: keep g5 nb_def)
    note gt = gt gt [unfolded nb_def]
    have pl: "place bp asize s = Some t'"
      using True by (simp add: place_def hdr r W(9) p2 f2 p3 n3 p4 f4 p5 i5 Let_def)
    have "same_arena s1 s5" by (simp add: same_arena_def s5_def s4_def s3_def s2_def)
    with sa sa5 have sat: "same_arena s t'" by (blast intro: same_arena_trans)
    have res: "GET_SIZE t' (HDRP bp) = Some (ucast asize)" "GET_ALLOC t' (HDRP bp) = Some 1"
      "FTRP t' bp = Some (bp + A - 8)" "GET t' (bp + A - 8) = GET t' (HDRP bp)"
      "NEXT_BLKP t' bp = Some nb"
      "GET_SIZE t' (HDRP nb) = Some (csz - ucast asize)" "GET_ALLOC t' (HDRP nb) = Some 0"
      "FTRP t' nb = Some (bp + C - 8)" "GET t' (bp + C - 8) = GET t' (HDRP nb)"
      using inb [of "bp - 4"] inb [of "bp + A - 8"] inb [of "nb - 4"] inb [of "bp + C - 8"]
        A24 True
      by (simp_all add: GET_SIZE_def GET_ALLOC_def FTRP_def NEXT_BLKP_def GET_Some HDRP_def
          WSIZE_def DSIZE_def int' gt ta tr W(2,4) nb_def)
    from pl sat res hd True show ?thesis
      by (simp add: W(9,10) A_def [symmetric] C_def [symmetric] nb_def [symmetric])
  next
    case False
    define tw :: "32 word" where "tw = ucast (PACK (ucast csz) 1)"
    define s2 where "s2 = wr32 (bp - 4) tw s1"
    define s3 where "s3 = wr32 (bp + C - 8) tw s2"
    have tw: "tw AND NOT 7 = csz" "tw AND 1 = 1" using W(7,8) by (simp_all add: tw_def)
    note tw = tw tw [simplified]
    have p2: "PUT (HDRP bp) (PACK (ucast csz) 1) s1 = Some s2"
      using inb [of "bp - 4"] C24 by (simp add: PUT_Some HDRP_def WSIZE_def s2_def tw_def)
    have g2: "rd32 s2 (bp - 4) = tw" by (simp add: s2_def)
    have in2: "in_heap s2 a n = in_heap s1 a n" for a n by (simp add: s2_def)
    have f2: "FTRP s2 bp = Some (bp + C - 8)"
      using inb [of "bp - 4"] C24
      by (simp add: FTRP_def GET_SIZE_def GET_Some HDRP_def WSIZE_def DSIZE_def in2 g2 tw C_def)
    have p3: "PUT (bp + C - 8) (PACK (ucast csz) 1) s2 = Some s3"
      using inb [of "bp + C - 8"] C24 by (simp add: PUT_Some in2 s3_def tw_def)
    have in3: "in_heap s3 a n = in_heap s1 a n" for a n by (simp add: s3_def in2)
    have g3: "rd32 s3 (bp - 4) = tw" "rd32 s3 (bp + C - 8) = tw"
      using C24 by (simp_all add: s3_def rd32_wr32_other g2)
    have pl: "place bp asize s = Some s3"
      using False by (simp add: place_def hdr r W(9) p2 f2 p3 Let_def)
    have sat: "same_arena s s3"
      using sa by (simp add: same_arena_def s3_def s2_def)
    have res: "GET_SIZE s3 (HDRP bp) = Some csz" "GET_ALLOC s3 (HDRP bp) = Some 1"
      "FTRP s3 bp = Some (bp + C - 8)" "GET s3 (bp + C - 8) = GET s3 (HDRP bp)"
      using inb [of "bp - 4"] inb [of "bp + C - 8"] C24
      by (simp_all add: GET_SIZE_def GET_ALLOC_def FTRP_def GET_Some HDRP_def
          WSIZE_def DSIZE_def in3 g3 tw C_def [symmetric])
    from pl sat res False show ?thesis
      by (simp add: W(9) A_def [symmetric] C_def [symmetric])
  qed
qed


theorem place_split_or_whole_witness:
  "GET_SIZE init_heap (HDRP 4208) = Some 168
   \<and> place 4208 24 init_heap \<noteq> None
   \<and> GET_SIZE (the (place 4208 24 init_heap)) (HDRP 4208) = Some 24
   \<and> GET_ALLOC (the (place 4208 24 init_heap)) (HDRP 4208) = Some 1
   \<and> GET_SIZE (the (place 4208 24 init_heap)) (HDRP 4232) = Some 144
   \<and> GET_ALLOC (the (place 4208 24 init_heap)) (HDRP 4232) = Some 0
   \<and> get_seg_free (the (place 4208 24 init_heap)) 3 = Some 4232
   \<and> place 4208 152 init_heap \<noteq> None
   \<and> GET_SIZE (the (place 4208 152 init_heap)) (HDRP 4208) = Some 168
   \<and> GET_ALLOC (the (place 4208 152 init_heap)) (HDRP 4208) = Some 1"
proof -
  have hyp: "GET_SIZE init_heap (HDRP 4208) = Some 168"
    "mem_heap_lo init_heap = 4096" "mem_brk init_heap = 4376" "seg_free init_heap = 4096"
    "heads_apart init_heap 4208 168"
    "PREV_FREE init_heap 4208 = Some 0" "NEXT_FREE init_heap 4208 = Some 0"
    by (simp_all add: run heads_apart_def apart_def)
  have b: "find_bucket 144 = 3" by (simp add: find_bucket_chain int_of_size_def)
  from place_split_or_whole [of init_heap 4208 168 24 0 0] hyp
  obtain s1 where s1: "place 4208 24 init_heap = Some s1"
    "GET_SIZE s1 (HDRP 4208) = Some 24" "GET_ALLOC s1 (HDRP 4208) = Some 1"
    "GET_SIZE s1 (HDRP 4232) = Some 144" "GET_ALLOC s1 (HDRP 4232) = Some 0"
    "get_seg_free s1 3 = Some 4232"
    by (auto simp: apart_def b)
  from place_split_or_whole [of init_heap 4208 168 152 0 0] hyp
  obtain s2 where s2: "place 4208 152 init_heap = Some s2"
    "GET_SIZE s2 (HDRP 4208) = Some 168" "GET_ALLOC s2 (HDRP 4208) = Some 1"
    by (auto simp: apart_def)
  from hyp(1) s1 s2 show ?thesis by simp
qed

end
